theory Spec2Isabelle
  imports Complex_Main
begin

section \<open>Data model\<close>

text \<open>
  A vector is a dense array of numbers; a shard (a flat Faiss index) is the sequence of the
  vectors added to it, in insertion order.  Floating-point numbers are idealised as reals.
  Python integers are unbounded, so ordinals, counts and offsets are \<open>int\<close>.
\<close>

type_synonym vector = "real list"
type_synonym shard = "vector list"

datatype error =
    SystemExit
  | ConfigError
  | ModelLoadError
  | ValueError
  | AssertionError
  | IndexError
  | TypeError
  | FaissError

text \<open>Sequencing of steps that may raise: the first error is the result.\<close>

definition and_then :: "error + 'a \<Rightarrow> ('a \<Rightarrow> error + 'b) \<Rightarrow> error + 'b" where
  "and_then m f = (case m of Inl e \<Rightarrow> Inl e | Inr a \<Rightarrow> f a)"

text \<open>
  What a run of one of the two scripts does that the host can observe: a line on the
  standard output, the empty sync line on the error stream, the message of the argument
  parser and the trace of an uncaught exception on the error stream.  A call of the shard
  search is recorded as well.  A time is either the literal \<open>0.0\<close> or a value measured with the
  clock.
\<close>

datatype timing = Zero | Measured

datatype out_line =
    ResultCount nat
  | DocId string
  | DocScore real
  | DocIndex int
  | DocText string
  | Seconds timing

datatype event =
    ShardSearch
  | Stdout out_line
  | Sync
  | Usage
  | Traceback error

datatype outcome = Clean | Fatal error

section \<open>Shard catalog (faiss\_search.py)\<close>

text \<open>
  \<open>bisect.bisect\<close> of the Python standard library (\<open>bisect_right\<close>): the loop
  \<^verbatim>\<open>while lo < hi: mid = (lo + hi) // 2; if x < a[mid]: hi = mid else: lo = mid + 1\<close>
  started at \<open>lo = 0\<close>, \<open>hi = len(a)\<close>.
\<close>

function bisect_loop :: "int list \<Rightarrow> int \<Rightarrow> nat \<Rightarrow> nat \<Rightarrow> nat" where
  "bisect_loop a x lo hi =
     (if lo < hi then
        (let mid = (lo + hi) div 2 in
         if x < a ! mid then bisect_loop a x lo mid else bisect_loop a x (mid + 1) hi)
      else lo)"
  by pat_completeness auto
termination
  by (relation "measure (\<lambda>(a, x, lo, hi). hi - lo)") auto

declare bisect_loop.simps [simp del]

definition bisect :: "int list \<Rightarrow> int \<Rightarrow> nat" where
  "bisect a x = bisect_loop a x 0 (length a)"

text \<open>Python list indexing: a negative index counts from the end, out of range raises.\<close>

definition py_get :: "'a list \<Rightarrow> int \<Rightarrow> error + 'a" where
  "py_get xs i =
     (let n = int (length xs); k = (if i < 0 then n + i else i)
      in if 0 \<le> k \<and> k < n then Inr (xs ! nat k) else Inl IndexError)"

text \<open>
  \<open>shards.at(i).reconstruct(j)\<close>: Faiss takes unsigned positions and refuses a shard number
  or a local offset outside the stored range.
\<close>

definition reconstruct_at :: "shard list \<Rightarrow> int \<Rightarrow> int \<Rightarrow> error + vector" where
  "reconstruct_at shards i j =
     (if 0 \<le> i \<and> i < int (length shards) then
        (if 0 \<le> j \<and> j < int (length (shards ! nat i)) then Inr (shards ! nat i ! nat j)
         else Inl FaissError)
      else Inl FaissError)"

text \<open>
  The first two lines of \<open>retrieve_vector_from_index\<close>:
  \<^verbatim>\<open>i = bisect.bisect(starts, x) - 1;  j = x - starts[i]\<close>.
\<close>

definition lookup :: "int list \<Rightarrow> int \<Rightarrow> error + (int \<times> int)" where
  "lookup starts x =
     (let i = int (bisect starts x) - 1 in
      case py_get starts i of
        Inl e \<Rightarrow> Inl e
      | Inr st \<Rightarrow> Inr (i, x - st))"

definition retrieve_vector_from_index :: "int \<Rightarrow> shard list \<Rightarrow> int list \<Rightarrow> error + vector" where
  "retrieve_vector_from_index x shards starts =
     (case lookup starts x of
        Inl e \<Rightarrow> Inl e
      | Inr (i, j) \<Rightarrow> reconstruct_at shards i j)"

text \<open>
  The loading loop of \<open>main\<close>: shard files are read for the numbers 1, 2, 3, ... until the
  first read fails.  The disk is the list of the files numbered from 1 (\<open>None\<close>: the file is
  missing or unreadable); past its end every file is missing.  \<open>add_shard\<close> refuses a shard
  whose width is not the configured one, and the bare \<open>except\<close> ends the loop then as well.
  The accumulator is \<open>(shards, shards_start, curr_start)\<close>.
\<close>

fun load_loop :: "nat \<Rightarrow> shard option list \<Rightarrow> shard list \<times> int list \<times> int
    \<Rightarrow> shard list \<times> int list \<times> int" where
  "load_loop d [] acc = acc"
| "load_loop d (None # rest) acc = acc"
| "load_loop d (Some s # rest) (shards, shards_start, curr_start) =
     (if list_all (\<lambda>v. length v = d) s then
        load_loop d rest (shards @ [s], shards_start @ [curr_start], curr_start + int (length s))
      else (shards, shards_start, curr_start))"

definition load_index :: "nat \<Rightarrow> shard option list \<Rightarrow> shard list \<times> int list" where
  "load_index d disk = (case load_loop d disk ([], [], 0) of (shards, shards_start, c) \<Rightarrow> (shards, shards_start))"

text \<open>
  The starting ordinals the specification gives: shard \<open>k\<close> starts at the number of vectors of
  the shards before it.
\<close>

definition starts_of :: "shard list \<Rightarrow> int list" where
  "starts_of shards = map (\<lambda>k. int (length (concat (take k shards)))) [0..<length shards]"

text \<open>Three shards of sizes 3, 3 and 1, of width 2.\<close>

definition demo_shards :: "shard list" where
  "demo_shards = [[[1, 0], [0, 1], [1, 1]], [[2, 0], [0, 2], [2, 2]], [[3, 3]]]"

section \<open>Multi-query search (faiss\_search.py)\<close>

subsection \<open>Numpy operations on vectors\<close>

text \<open>
  \<open>numpy.dot\<close> of two one-dimensional arrays needs equal lengths; \<open>x - y\<close> broadcasts an
  array of length one against the other operand and raises for other unequal lengths.
\<close>

definition np_dot :: "vector \<Rightarrow> vector \<Rightarrow> error + real" where
  "np_dot x y =
     (if length x = length y then Inr (sum_list (map (\<lambda>(a, b). a * b) (zip x y)))
      else Inl ValueError)"

definition np_sub :: "vector \<Rightarrow> vector \<Rightarrow> error + vector" where
  "np_sub x y =
     (if length x = length y then Inr (map (\<lambda>(a, b). a - b) (zip x y))
      else if length y = 1 then Inr (map (\<lambda>a. a - hd y) x)
      else if length x = 1 then Inr (map (\<lambda>b. hd x - b) y)
      else Inl ValueError)"

definition np_sum_square :: "vector \<Rightarrow> real" where
  "np_sum_square v = sum_list (map (\<lambda>a. a * a) v)"

definition np_norm :: "vector \<Rightarrow> real" where
  "np_norm v = sqrt (np_sum_square v)"

text \<open>
  \<open>compute_similarity\<close>.  For a similarity name outside the four known ones the Python
  function returns \<open>None\<close>, and the caller's multiplication by the weight raises
  \<open>TypeError\<close>; the two steps are folded into the last branch.
\<close>

definition compute_similarity :: "vector \<Rightarrow> vector \<Rightarrow> string \<Rightarrow> error + real" where
  "compute_similarity x y similarity =
     (if similarity = ''cos'' \<or> similarity = ''dot'' then np_dot x y
      else if similarity = ''l2'' then
        (case np_sub x y of Inl e \<Rightarrow> Inl e | Inr z \<Rightarrow> Inr (sqrt (np_sum_square z)))
      else if similarity = ''l2sq'' then
        (case np_sub x y of Inl e \<Rightarrow> Inl e | Inr z \<Rightarrow> Inr (np_sum_square z))
      else Inl TypeError)"

subsection \<open>Dictionaries with insertion order\<close>

text \<open>
  A Python dict keeps its keys in the order of their first insertion; storing under a key
  that is present replaces the value in place.
\<close>

fun dict_store :: "('k \<times> 'v) list \<Rightarrow> 'k \<Rightarrow> 'v \<Rightarrow> ('k \<times> 'v) list" where
  "dict_store [] k v = [(k, v)]"
| "dict_store ((k', v') # d) k v =
     (if k' = k then (k, v) # d else (k', v') # dict_store d k v)"

definition dict_get :: "('k \<times> 'v) list \<Rightarrow> 'k \<Rightarrow> error + 'v" where
  "dict_get d k = (case map_of d k of None \<Rightarrow> Inl IndexError | Some v \<Rightarrow> Inr v)"

text \<open>A loop whose body may raise: the first error ends it.\<close>

fun for_each :: "('s \<Rightarrow> 'a \<Rightarrow> error + 's) \<Rightarrow> 'a list \<Rightarrow> 's \<Rightarrow> error + 's" where
  "for_each body [] s = Inr s"
| "for_each body (x # xs) s =
     (case body s x of Inl e \<Rightarrow> Inl e | Inr s' \<Rightarrow> for_each body xs s')"

subsection \<open>One search request\<close>

text \<open>
  The environment of a run: what the command line and the loaded files fix, and the
  external collaborators.  \<open>compute_vector\<close> is the encoder, \<open>int_of_line\<close> and
  \<open>float_of_line\<close> are Python's \<open>int\<close> and \<open>float\<close> on an input line (\<open>None\<close>: the line
  does not parse), \<open>shards_search\<close> is the second component (the ordinals, one row per
  query, with \<open>-1\<close> where nothing was found) of \<open>shards.search\<close>, and \<open>set_iter\<close> gives the
  order in which a Python set built from a sequence of insertions is iterated.
\<close>

record search_env =
  env_similarity :: string
  env_vector_size :: nat
  compute_vector :: "string \<Rightarrow> vector"
  int_of_line :: "string \<Rightarrow> int option"
  float_of_line :: "string \<Rightarrow> real option"
  shards_search :: "vector list \<Rightarrow> int \<Rightarrow> int list list"
  set_iter :: "int list \<Rightarrow> int list"
  env_shards :: "shard list"
  env_shards_start :: "int list"
  env_docs_file :: string
  env_docs_ref :: "int list"

text \<open>
  What is assumed of a Python set: iterating it yields each member once.  Nothing is
  assumed about the order.
\<close>

definition set_iteration :: "(int list \<Rightarrow> int list) \<Rightarrow> bool" where
  "set_iteration it = (\<forall>xs. distinct (it xs) \<and> set (it xs) = set xs)"

text \<open>
  Line 189:
  \<^verbatim>\<open>{int(x.item()) for x in indexes[i] for i in range(num_queries) if x >= 0}\<close>.
  The first iterable, \<open>indexes[i]\<close>, is evaluated in the scope of \<open>main\<close>, where \<open>i\<close> is what
  the query-reading loop left: \<open>num_queries - 1\<close>.  The \<open>i\<close> of the second \<open>for\<close> is local
  to the comprehension.  With no query the array \<open>indexes\<close> has no row, and indexing it
  raises for every value of \<open>i\<close>.
\<close>

definition indexes_retrieved :: "(int list \<Rightarrow> int list) \<Rightarrow> int list list \<Rightarrow> nat \<Rightarrow> error + int list" where
  "indexes_retrieved it indexes num_queries =
     (if num_queries = 0 then Inl IndexError
      else and_then (py_get indexes (int num_queries - 1))
             (\<lambda>row. Inr (it [x. x \<leftarrow> row, i \<leftarrow> [0..<num_queries], 0 \<le> x])))"

text \<open>
  Line 192: \<^verbatim>\<open>{x : retrieve_vector_from_index(x, shards, shards_start) for x in indexes_retrieved}\<close>.
\<close>

definition retrieve_vectors :: "search_env \<Rightarrow> int list \<Rightarrow> error + (int \<times> vector) list" where
  "retrieve_vectors env retrieved =
     for_each (\<lambda>d x.
        and_then (retrieve_vector_from_index x (env_shards env) (env_shards_start env))
          (\<lambda>v. Inr (dict_store d x v))) retrieved []"

text \<open>
  Lines 196-197:
  \<^verbatim>\<open>{x : sum([queries_weight[i] * compute_similarity(vectors[x], queries_vector[i], similarity)])
    for i in range(num_queries) for x in indexes_retrieved}\<close>.
  The list under \<open>sum\<close> has one element; the outer loop is over the queries, the inner one
  over the candidates, and each step stores under the key \<open>x\<close>.
\<close>

definition score_term :: "search_env \<Rightarrow> (int \<times> vector) list \<Rightarrow> vector list \<Rightarrow> real list
    \<Rightarrow> nat \<Rightarrow> int \<Rightarrow> error + real" where
  "score_term env vectors queries_vector queries_weight i x =
     and_then (py_get queries_weight (int i)) (\<lambda>w.
     and_then (dict_get vectors x) (\<lambda>v.
     and_then (py_get queries_vector (int i)) (\<lambda>q.
     and_then (compute_similarity v q (env_similarity env)) (\<lambda>s.
       Inr (sum_list [w * s])))))"

definition queries_result :: "search_env \<Rightarrow> (int \<times> vector) list \<Rightarrow> vector list \<Rightarrow> real list
    \<Rightarrow> int list \<Rightarrow> error + (int \<times> real) list" where
  "queries_result env vectors queries_vector queries_weight retrieved =
     for_each (\<lambda>d i.
        for_each (\<lambda>d' x.
           and_then (score_term env vectors queries_vector queries_weight i x)
             (\<lambda>v. Inr (dict_store d' x v))) retrieved d)
       [0..<length queries_vector] []"

text \<open>
  Lines 198-199: \<^verbatim>\<open>sorted(queries_result.items(), key = operator.itemgetter(1), reverse = True)\<close>,
  a stable sort by descending score, then the first \<open>min(len(result), num_documents)\<close> pairs.
\<close>

definition rank_results :: "(int \<times> real) list \<Rightarrow> int \<Rightarrow> (int \<times> real) list" where
  "rank_results items num_documents =
     (let result = sort_key (\<lambda>p. - snd p) items
      in map (\<lambda>i. result ! i) [0..<nat (min (int (length result)) num_documents)])"

text \<open>Lines 186-199, from the search to the ranked list.\<close>

definition search_request :: "search_env \<Rightarrow> vector list \<Rightarrow> real list \<Rightarrow> int
    \<Rightarrow> error + (int \<times> real) list" where
  "search_request env queries_vector queries_weight num_documents =
     (let indexes = shards_search env queries_vector num_documents in
      and_then (indexes_retrieved (set_iter env) indexes (length queries_vector)) (\<lambda>retrieved.
      and_then (retrieve_vectors env retrieved) (\<lambda>vectors.
      and_then (queries_result env vectors queries_vector queries_weight retrieved) (\<lambda>scored.
        Inr (rank_results scored num_documents)))))"

subsection \<open>The document text store\<close>

definition TAB :: char where "TAB = CHR 0x09"
definition LF :: char where "LF = CHR 0x0A"
definition CR :: char where "CR = CHR 0x0D"

text \<open>
  The text store is opened in text mode with universal newlines: \<open>readline\<close> returns the
  characters up to the first line end (\<open>LF\<close>, \<open>CR\<close> or \<open>CR LF\<close>), followed by \<open>LF\<close> when a
  line end was found.  The file is the sequence of its characters from the start, and
  seeking to an offset drops that many of them.
\<close>

definition readline :: "string \<Rightarrow> string" where
  "readline s =
     (let body = takeWhile (\<lambda>c. c \<noteq> LF \<and> c \<noteq> CR) s
      in if length body < length s then body @ [LF] else body)"

text \<open>\<open>str.strip(chars)\<close> removes the given characters from both ends.\<close>

definition py_strip :: "char list \<Rightarrow> string \<Rightarrow> string" where
  "py_strip chars s =
     rev (dropWhile (\<lambda>c. c \<in> set chars) (rev (dropWhile (\<lambda>c. c \<in> set chars) s)))"

text \<open>\<open>str.split(sep)\<close> with a one-character separator cuts at every occurrence of it.\<close>

fun py_split :: "char \<Rightarrow> string \<Rightarrow> string list" where
  "py_split sep [] = [[]]"
| "py_split sep (c # cs) =
     (if c = sep then [] # py_split sep cs
      else (case py_split sep cs of
              [] \<Rightarrow> [[c]]
            | w # ws \<Rightarrow> (c # w) # ws))"

text \<open>
  Lines 209-212: \<^verbatim>\<open>f.seek(docs_ref[doc_index]); temp = f.readline().strip(' \t\r\n').split('\t')\<close>
  \<^verbatim>\<open>doc_id = temp[0]; doc_text = temp[1]\<close>.  Seeking to a negative offset raises.
\<close>

definition resolve_document :: "string \<Rightarrow> int list \<Rightarrow> int \<Rightarrow> error + (string \<times> string)" where
  "resolve_document file refs doc_index =
     and_then (py_get refs doc_index) (\<lambda>off.
       if off < 0 then Inl ValueError
       else
         (let temp = py_split TAB (py_strip [CHR '' '', TAB, CR, LF] (readline (drop (nat off) file)))
          in and_then (py_get temp 0) (\<lambda>doc_id.
             and_then (py_get temp 1) (\<lambda>doc_text. Inr (doc_id, doc_text)))))"

subsection \<open>The run\<close>

text \<open>
  \<^verbatim>\<open>queries_vector[i] = compute_vector(input())\<close> stores into a row of width
  \<open>model_vector_size\<close>: numpy broadcasts a vector of length one and refuses another width.
\<close>

definition store_row :: "nat \<Rightarrow> vector \<Rightarrow> error + vector" where
  "store_row d v =
     (if length v = d then Inr v
      else if length v = 1 then Inr (replicate d (hd v))
      else Inl ValueError)"

text \<open>
  The loop over the queries, lines 166-175.  The result is \<open>None\<close> when the input ends
  (\<open>EOFError\<close>), and otherwise an error or the vectors, the weights and the rest of the
  input.  For the cosine similarity the query vector is divided by its norm.
\<close>

fun read_queries :: "search_env \<Rightarrow> nat \<Rightarrow> string list \<Rightarrow> vector list \<Rightarrow> real list
    \<Rightarrow> (error + vector list \<times> real list \<times> string list) option" where
  "read_queries env 0 inp qs ws = Some (Inr (qs, ws, inp))"
| "read_queries env (Suc n) [] qs ws = None"
| "read_queries env (Suc n) (text # inp) qs ws =
     (case store_row (env_vector_size env) (compute_vector env text) of
        Inl e \<Rightarrow> Some (Inl e)
      | Inr row \<Rightarrow>
         (let q = (if env_similarity env = ''cos'' then map (\<lambda>a. a / np_norm row) row else row)
          in (case inp of
                [] \<Rightarrow> None
              | wl # inp' \<Rightarrow>
                 (case float_of_line env wl of
                    None \<Rightarrow> Some (Inl ValueError)
                  | Some w \<Rightarrow> read_queries env n inp' (qs @ [q]) (ws @ [w])))))"

text \<open>Lines 203-221: the result count, then four lines for each result.\<close>

fun print_results :: "search_env \<Rightarrow> (int \<times> real) list \<Rightarrow> event list \<times> error option" where
  "print_results env [] = ([], None)"
| "print_results env ((doc_index, doc_score) # rest) =
     (case resolve_document (env_docs_file env) (env_docs_ref env) doc_index of
        Inl e \<Rightarrow> ([], Some e)
      | Inr (doc_id, doc_text) \<Rightarrow>
         (let (evs, err) = print_results env rest
          in ([Stdout (DocId doc_id), Stdout (DocScore doc_score), Stdout (DocIndex doc_index),
               Stdout (DocText doc_text)] @ evs, err)))"

text \<open>
  One pass of the \<open>while True\<close> loop of the run phase, up to the decision to stop: the
  request is read (lines 162-180).  \<open>None\<close>: the loop is left by \<open>break\<close>, at the end of
  the input or for a document count below 1.
\<close>

definition read_request :: "search_env \<Rightarrow> string list
    \<Rightarrow> (error + vector list \<times> real list \<times> int \<times> string list) option" where
  "read_request env inp =
     (case inp of
        [] \<Rightarrow> None
      | ql # inp1 \<Rightarrow>
         (case int_of_line env ql of
            None \<Rightarrow> Some (Inl ValueError)
          | Some num_queries \<Rightarrow>
             (if num_queries < 0 then Some (Inl ValueError)
              else (case read_queries env (nat num_queries) inp1 [] [] of
                      None \<Rightarrow> None
                    | Some (Inl e) \<Rightarrow> Some (Inl e)
                    | Some (Inr (qs, ws, inp2)) \<Rightarrow>
                       (case inp2 of
                          [] \<Rightarrow> None
                        | kl # inp3 \<Rightarrow>
                           (case int_of_line env kl of
                              None \<Rightarrow> Some (Inl ValueError)
                            | Some num_documents \<Rightarrow>
                               (if num_documents < 1 then None
                                else Some (Inr (qs, ws, num_documents, inp3)))))))))"

text \<open>
  The rest of the pass (lines 186-227): search, rank, print, sync.  An exception here is
  not caught inside \<open>main\<close>.
\<close>

definition answer_request :: "search_env \<Rightarrow> vector list \<Rightarrow> real list \<Rightarrow> int
    \<Rightarrow> event list \<times> error option" where
  "answer_request env qs ws num_documents =
     (case search_request env qs ws num_documents of
        Inl e \<Rightarrow> ([ShardSearch], Some e)
      | Inr result \<Rightarrow>
         (let (evs, err) = print_results env result
          in (case err of
                Some e \<Rightarrow> ([ShardSearch, Stdout (ResultCount (length result))] @ evs, Some e)
              | None \<Rightarrow> ([ShardSearch, Stdout (ResultCount (length result))] @ evs @ [Sync], None))))"

text \<open>
  The run phase.  The fuel bounds the number of passes; every pass that goes on consumes
  at least two input lines, so the length of the input is enough fuel.
\<close>

fun run_loop :: "nat \<Rightarrow> search_env \<Rightarrow> string list \<Rightarrow> (event list \<times> outcome) option" where
  "run_loop 0 env inp = None"
| "run_loop (Suc fuel) env inp =
     (case read_request env inp of
        None \<Rightarrow> Some ([], Clean)
      | Some (Inl e) \<Rightarrow> Some ([], Fatal e)
      | Some (Inr (qs, ws, num_documents, inp')) \<Rightarrow>
         (case answer_request env qs ws num_documents of
            (evs, Some e) \<Rightarrow> Some (evs, Fatal e)
          | (evs, None) \<Rightarrow>
             (case run_loop fuel env inp' of
                None \<Rightarrow> None
              | Some (evs', out) \<Rightarrow> Some (evs @ evs', out))))"

text \<open>
  The script: the run phase after the sync line of the init phase, and the handler of the
  last lines, which writes the trace of an uncaught exception to the error stream.
\<close>

definition search_script :: "search_env \<Rightarrow> string list \<Rightarrow> (event list \<times> outcome) option" where
  "search_script env inp =
     (case run_loop (Suc (length inp)) env inp of
        None \<Rightarrow> None
      | Some (evs, Clean) \<Rightarrow> Some ([Sync] @ evs, Clean)
      | Some (evs, Fatal e) \<Rightarrow> Some ([Sync] @ evs @ [Traceback e], Fatal e))"

subsection \<open>Example runs\<close>

text \<open>
  A stand-in for \<open>shards.search\<close> in the examples: the exact scan the flat indexes do.  Each
  query gets the \<open>k\<close> ordinals of the greatest inner product (cosine, dot) or of the least
  squared distance (l2, l2sq), the lower ordinal first among equals, padded with \<open>-1\<close>.
\<close>

definition flat_search :: "string \<Rightarrow> shard list \<Rightarrow> vector list \<Rightarrow> int \<Rightarrow> int list list" where
  "flat_search sim shs qs k =
     map (\<lambda>q.
        let cands = zip (map int [0..<length (concat shs)]) (concat shs);
            key = (\<lambda>(x, v). if sim = ''cos'' \<or> sim = ''dot''
                      then - sum_list (map (\<lambda>(a, b). a * b) (zip v q))
                      else sum_list (map (\<lambda>(a, b). (a - b) * (a - b)) (zip v q)));
            found = take (nat k) (map fst (sort_key key cands))
        in found @ replicate (nat k - length found) (- 1)) qs"

text \<open>
  An index of one shard and a text store of as many lines; the encoder knows the query
  texts \<open>first\<close> (the vector \<open>(1, 0)\<close>) and anything else (the vector \<open>(0, 1)\<close>).
\<close>

definition example_env :: "string \<Rightarrow> shard \<Rightarrow> string \<Rightarrow> int list \<Rightarrow> search_env" where
  "example_env sim shard file refs =
     \<lparr> env_similarity = sim, env_vector_size = 2,
       compute_vector = (\<lambda>t. if t = ''first'' then [1, 0] else [0, 1]),
       int_of_line = (\<lambda>l. if l = ''0'' then Some 0 else if l = ''1'' then Some 1
                           else if l = ''2'' then Some 2 else None),
       float_of_line = (\<lambda>l. if l = ''1.0'' then Some 1 else if l = ''2.0'' then Some 2 else None),
       shards_search = flat_search sim [shard],
       set_iter = remdups,
       env_shards = [shard], env_shards_start = [0],
       env_docs_file = file, env_docs_ref = refs \<rparr>"

text \<open>One stored vector, whose inner products with the two queries are 0.5 and 0.3.\<close>

definition fusion_env :: search_env where
  "fusion_env = example_env ''dot'' [[1/2, 3/10]] (''d0'' @ [TAB] @ ''text'' @ [LF]) [0]"

text \<open>Two stored vectors, each the nearest to one of the two queries.\<close>

definition union_env :: search_env where
  "union_env = example_env ''dot'' [[1, 0], [0, 1]]
      (''d0'' @ [TAB] @ ''one'' @ [LF] @ ''d1'' @ [TAB] @ ''two'' @ [LF]) [0, 7]"

text \<open>Two stored vectors at squared distances 0 and 25 from the query \<open>(0, 1)\<close>.\<close>

definition distance_env :: search_env where
  "distance_env = example_env ''l2sq'' [[0, 1], [3, 5]]
      (''d0'' @ [TAB] @ ''one'' @ [LF] @ ''d1'' @ [TAB] @ ''two'' @ [LF]) [0, 7]"

section \<open>Index builder (faiss\_index.py)\<close>

text \<open>
  The arguments of the script and the encoder (\<open>None\<close>: the tokenizer or the model cannot
  be loaded).  The encoder gives the vector of one document; the vectors of a batch are
  the rows of a two-dimensional array.
\<close>

record build_env =
  similarity :: string
  vector_size :: nat
  batch_size :: int
  chunks_size :: int
  encoder :: "(string \<Rightarrow> vector) option"

definition choices :: "string list" where
  "choices = [''cos'', ''dot'', ''l2'', ''l2sq'']"

text \<open>The width of a two-dimensional array that has a row.\<close>

definition array_width :: "vector list \<Rightarrow> nat" where
  "array_width m = length (hd m)"

text \<open>
  \<open>vectors / vectors_norm\<close> for an array of shape \<open>(B, H)\<close> and one of shape \<open>(n)\<close>: numpy
  aligns the last axes, so \<open>H\<close> is matched with \<open>n\<close>.  Equal: each row is divided
  elementwise by the second operand.  Otherwise an axis of length one is stretched, and
  any other pair of lengths raises.  (Where a divisor is zero the floating-point result is
  not a number; the real quotient is not meant to model that.)
\<close>

definition np_divide :: "vector list \<Rightarrow> vector \<Rightarrow> error + vector list" where
  "np_divide m v =
     (if array_width m = length v then Inr (map (\<lambda>row. map (\<lambda>(a, b). a / b) (zip row v)) m)
      else if length v = 1 then Inr (map (\<lambda>row. map (\<lambda>a. a / hd v) row) m)
      else if array_width m = 1 then Inr (map (\<lambda>row. map (\<lambda>b. hd row / b) v) m)
      else Inl ValueError)"

text \<open>\<open>faiss_index.add(x)\<close> asserts that the width of \<open>x\<close> is the width of the index.\<close>

definition faiss_add :: "nat \<Rightarrow> shard \<Rightarrow> vector list \<Rightarrow> error + shard" where
  "faiss_add d faiss_index x =
     (if array_width x = d then Inr (faiss_index @ x) else Inl AssertionError)"

text \<open>
  \<open>process_batch\<close>, lines 55-90: the vectors of the batch, for the cosine similarity
  divided by \<open>numpy.linalg.norm(vectors, axis = 1)\<close>, are added to the index.  The result
  is the index and the two times.
\<close>

definition process_batch :: "build_env \<Rightarrow> (string \<Rightarrow> vector) \<Rightarrow> string list \<Rightarrow> shard
    \<Rightarrow> error + (shard \<times> timing \<times> timing)" where
  "process_batch env enc batch faiss_index =
     (if length batch = 0 then Inr (faiss_index, Zero, Zero)
      else
        (let vectors = map enc batch in
         and_then
           (if similarity env = ''cos'' then
              (let vectors_norm = map np_norm vectors in
               and_then (np_divide vectors vectors_norm) (faiss_add (vector_size env) faiss_index))
            else faiss_add (vector_size env) faiss_index vectors)
           (\<lambda>faiss_index'. Inr (faiss_index', Measured, Measured))))"

text \<open>
  The state of the indexing phase: the local variables of \<open>main\<close>, the shard files written
  so far (the shard number that fills the filename template, and the vectors), and what
  was written to the two streams.
\<close>

record build_state =
  index_counter :: int
  doc_index_counter :: int
  text_batch :: "string list"
  faiss_index :: shard
  written :: "(int \<times> shard) list"
  events :: "event list"

text \<open>Lines 189-205: the open shard is written under the next number and emptied.\<close>

definition roll_over :: "build_state \<Rightarrow> build_state" where
  "roll_over st =
     st\<lparr> index_counter := index_counter st + 1,
         written := written st @ [(index_counter st + 1, faiss_index st)],
         faiss_index := [],
         doc_index_counter := 0 \<rparr>"

text \<open>
  Lines 175-215, the body of the \<open>if\<close> that processes a batch: the batch is processed, then
  counted, then the size of the open shard is checked, then the sync line and the two times
  are written.  An exception of \<open>process_batch\<close> is not caught.
\<close>

definition flush_batch :: "build_env \<Rightarrow> (string \<Rightarrow> vector) \<Rightarrow> build_state
    \<Rightarrow> build_state \<times> error option" where
  "flush_batch env enc st =
     (case (if 0 < length (text_batch st)
            then process_batch env enc (text_batch st) (faiss_index st)
            else Inr (faiss_index st, Zero, Zero)) of
        Inl e \<Rightarrow> (st, Some e)
      | Inr (faiss_index', ext_time, index_time) \<Rightarrow>
         (let st1 = st\<lparr> faiss_index := faiss_index',
                        doc_index_counter := doc_index_counter st + int (length (text_batch st)),
                        text_batch := [] \<rparr>;
              full = (chunks_size env \<le> doc_index_counter st1);
              st2 = (if full then roll_over st1 else st1);
              index_time' = (if full then Measured else index_time)
          in (st2\<lparr> events := events st2 @
                      [Sync, Stdout (Seconds ext_time), Stdout (Seconds index_time')] \<rparr>, None)))"

text \<open>
  The \<open>while True\<close> loop, lines 160-218, over the lines of the input; the end of the list
  is the end of the input.
\<close>

fun build_loop :: "build_env \<Rightarrow> (string \<Rightarrow> vector) \<Rightarrow> string list \<Rightarrow> build_state
    \<Rightarrow> build_state \<times> error option" where
  "build_loop env enc [] st = (st, None)"
| "build_loop env enc (doc_text # rest) st =
     (let st1 = (if doc_text \<noteq> [] then st\<lparr> text_batch := text_batch st @ [doc_text] \<rparr> else st)
      in if doc_text = [] \<or> batch_size env \<le> int (length (text_batch st1)) then
           (case flush_batch env enc st1 of
              (st2, Some e) \<Rightarrow> (st2, Some e)
            | (st2, None) \<Rightarrow> build_loop env enc rest st2)
         else build_loop env enc rest st1)"

text \<open>Lines 220-247: the last batch, the last shard, the last sync line and times.\<close>

definition finish :: "build_env \<Rightarrow> (string \<Rightarrow> vector) \<Rightarrow> build_state
    \<Rightarrow> build_state \<times> error option" where
  "finish env enc st =
     (case (if 0 < length (text_batch st)
            then process_batch env enc (text_batch st) (faiss_index st)
            else Inr (faiss_index st, Zero, Zero)) of
        Inl e \<Rightarrow> (st, Some e)
      | Inr (faiss_index', ext_time, index_time) \<Rightarrow>
         (let st1 = (if 0 < length (text_batch st)
                     then st\<lparr> faiss_index := faiss_index',
                              doc_index_counter := doc_index_counter st + int (length (text_batch st)) \<rparr>
                     else st);
              nonempty = (0 < doc_index_counter st1);
              st2 = (if nonempty
                     then st1\<lparr> index_counter := index_counter st1 + 1,
                               written := written st1 @ [(index_counter st1 + 1, faiss_index st1)] \<rparr>
                     else st1);
              index_time' = (if nonempty then Measured else index_time)
          in (st2\<lparr> events := events st2 @
                      [Sync, Stdout (Seconds ext_time), Stdout (Seconds index_time')] \<rparr>, None)))"

text \<open>
  \<open>parse_args\<close>: the argument parser refuses a similarity outside its choices, writes its
  message and exits.
\<close>

definition parse_args :: "build_env \<Rightarrow> error + build_env" where
  "parse_args env = (if similarity env \<in> set choices then Inr env else Inl SystemExit)"

definition initial_state :: build_state where
  "initial_state = \<lparr> index_counter = 0, doc_index_counter = 0, text_batch = [],
     faiss_index = [], written = [], events = [] \<rparr>"

text \<open>\<open>main\<close>: the checks of lines 108-113, the loading of the model, the sync line, the loop.\<close>

definition build_main :: "build_env \<Rightarrow> string list \<Rightarrow> build_state \<times> error option" where
  "build_main env0 inp =
     (case parse_args env0 of
        Inl e \<Rightarrow> (initial_state\<lparr> events := [Usage] \<rparr>, Some e)
      | Inr env \<Rightarrow>
         (if similarity env \<notin> set [''cos'', ''dot'', ''l2'', ''l2sq''] then (initial_state, Some ConfigError)
          else if batch_size env < 1 then (initial_state, Some ConfigError)
          else if chunks_size env < 1 then (initial_state, Some ConfigError)
          else (case encoder env of
                  None \<Rightarrow> (initial_state, Some ModelLoadError)
                | Some enc \<Rightarrow>
                   (case build_loop env enc inp (initial_state\<lparr> events := [Sync] \<rparr>) of
                      (st, Some e) \<Rightarrow> (st, Some e)
                    | (st, None) \<Rightarrow> finish env enc st))))"

text \<open>
  The last lines of the script: \<open>SystemExit\<close> is passed over in silence, the trace of any
  other exception is written to the error stream.
\<close>

definition build_script :: "build_env \<Rightarrow> string list \<Rightarrow> build_state \<times> outcome" where
  "build_script env inp =
     (case build_main env inp of
        (st, None) \<Rightarrow> (st, Clean)
      | (st, Some e) \<Rightarrow>
         (if e = SystemExit then (st, Fatal e)
          else (st\<lparr> events := events st @ [Traceback e] \<rparr>, Fatal e)))"

subsection \<open>Batches and shards, as the specification describes them\<close>

text \<open>
  The batches of a build, in order: document lines are collected until the batch has
  \<open>b\<close> of them or an empty line comes; the end of the input closes the last batch.  Empty
  batches are not batches.
\<close>

fun batches_from :: "int \<Rightarrow> string list \<Rightarrow> string list \<Rightarrow> string list list" where
  "batches_from b pending [] = (if pending = [] then [] else [pending])"
| "batches_from b pending (l # ls) =
     (let pending' = (if l \<noteq> [] then pending @ [l] else pending)
      in if l = [] \<or> b \<le> int (length pending') then
           (if pending' = [] then [] else [pending']) @ batches_from b [] ls
         else batches_from b pending' ls)"

text \<open>
  The shards of a sequence of batches: whole batches are put into the open shard, which is
  closed as soon as it holds \<open>c\<close> documents or more; the last shard may hold fewer.
\<close>

fun group_batches :: "int \<Rightarrow> 'a list list \<Rightarrow> 'a list list \<Rightarrow> 'a list list list" where
  "group_batches c cur [] = (if concat cur = [] then [] else [cur])"
| "group_batches c cur (b # bs) =
     (let cur' = cur @ [b]
      in if c \<le> int (length (concat cur')) then cur' # group_batches c [] bs
         else group_batches c cur' bs)"

text \<open>Shard files are numbered from the number after \<open>k\<close>.\<close>

fun number_from :: "int \<Rightarrow> 'a list \<Rightarrow> (int \<times> 'a) list" where
  "number_from k [] = []"
| "number_from k (x # xs) = (k + 1, x) # number_from (k + 1) xs"

text \<open>The vectors that \<open>process_batch\<close> adds to the index for a batch.\<close>

definition batch_vectors :: "build_env \<Rightarrow> (string \<Rightarrow> vector) \<Rightarrow> string list \<Rightarrow> vector list" where
  "batch_vectors env enc batch =
     (case process_batch env enc batch [] of
        Inl e \<Rightarrow> []
      | Inr (idx, ext_time, index_time) \<Rightarrow> idx)"

text \<open>An encoder of width 2 and build arguments for the examples.\<close>

definition demo_enc :: "string \<Rightarrow> vector" where
  "demo_enc t = (if t = ''a'' then [3, 4] else if t = ''b'' then [6, 8] else [0, 1])"

definition demo_build :: "string \<Rightarrow> nat \<Rightarrow> int \<Rightarrow> int \<Rightarrow> build_env" where
  "demo_build sim d b c =
     \<lparr> similarity = sim, vector_size = d, batch_size = b, chunks_size = c,
       encoder = Some demo_enc \<rparr>"

text \<open>The state at the end of the example build with batch size 2 and chunk size 1.\<close>

definition demo_final :: build_state where
  "demo_final = \<lparr> index_counter = 3, doc_index_counter = 1, text_batch = [''d''],
          faiss_index = [[0, 1]],
          written = [(1, [[3, 4], [6, 8]]), (2, [[0, 1]]), (3, [[0, 1]])],
          events = [Sync, Sync, Stdout (Seconds Measured), Stdout (Seconds Measured),
            Sync, Stdout (Seconds Measured), Stdout (Seconds Measured), Sync,
            Stdout (Seconds Measured), Stdout (Seconds Measured)] \<rparr>"

text \<open>
  L2 normalization as the specification describes it: a vector divided by its own
  Euclidean norm.
\<close>

definition l2_normalize :: "vector \<Rightarrow> vector" where
  "l2_normalize v = map (\<lambda>a. a / np_norm v) v"

section \<open>Verification\<close>

subsection \<open>Sequencing\<close>

lemma and_then_Inr [simp]: "and_then (Inr a) f = f a"
  by (simp add: and_then_def)

lemma and_then_Inl [simp]: "and_then (Inl e) f = Inl e"
  by (simp add: and_then_def)

lemma and_then_eq_Inr: "and_then m f = Inr b \<longleftrightarrow> (\<exists>a. m = Inr a \<and> f a = Inr b)"
  by (cases m) simp_all

lemma for_each_append:
  "for_each body (xs @ ys) s = and_then (for_each body xs s) (for_each body ys)"
proof (induction xs arbitrary: s)
  case Nil
  show ?case by simp
next
  case (Cons x xs)
  show ?case by (cases "body s x") (simp_all add: Cons.IH)
qed

subsection \<open>The catalog\<close>

lemma bisect_loop_spec:
  assumes "sorted a" "lo \<le> hi" "hi \<le> length a"
    and "\<forall>k<lo. a ! k \<le> x"
    and "\<forall>k. hi \<le> k \<and> k < length a \<longrightarrow> x < a ! k"
  shows "lo \<le> bisect_loop a x lo hi \<and> bisect_loop a x lo hi \<le> hi
       \<and> (\<forall>k<bisect_loop a x lo hi. a ! k \<le> x)
       \<and> (\<forall>k. bisect_loop a x lo hi \<le> k \<and> k < length a \<longrightarrow> x < a ! k)"
  using assms
proof (induction a x lo hi rule: bisect_loop.induct)
  case (1 a x lo hi)
  show ?case
  proof (cases "lo < hi")
    case False
    then have "bisect_loop a x lo hi = lo" by (subst bisect_loop.simps) simp
    moreover have "lo = hi" using False "1.prems"(2) by simp
    ultimately show ?thesis using "1.prems" by simp
  next
    case True
    define mid where "mid = (lo + hi) div 2"
    have mid: "lo \<le> mid" "mid < hi" using True by (simp_all add: mid_def)
    show ?thesis
    proof (cases "x < a ! mid")
      case lt: True
      have step: "bisect_loop a x lo hi = bisect_loop a x lo mid"
        using True lt by (subst bisect_loop.simps) (simp add: mid_def Let_def)
      have up: "\<forall>k. mid \<le> k \<and> k < length a \<longrightarrow> x < a ! k"
      proof (intro allI impI)
        fix k assume k: "mid \<le> k \<and> k < length a"
        then have "a ! mid \<le> a ! k" using \<open>sorted a\<close> by (simp add: sorted_iff_nth_mono)
        with lt show "x < a ! k" by simp
      qed
      have "lo \<le> bisect_loop a x lo mid \<and> bisect_loop a x lo mid \<le> mid
          \<and> (\<forall>k<bisect_loop a x lo mid. a ! k \<le> x)
          \<and> (\<forall>k. bisect_loop a x lo mid \<le> k \<and> k < length a \<longrightarrow> x < a ! k)"
        using "1.IH"(1) [OF True mid_def lt \<open>sorted a\<close>] mid "1.prems" up by simp
      with mid step show ?thesis by simp
    next
      case ge: False
      have step: "bisect_loop a x lo hi = bisect_loop a x (mid + 1) hi"
        using True ge by (subst bisect_loop.simps) (simp add: mid_def Let_def)
      have low: "\<forall>k<mid + 1. a ! k \<le> x"
      proof (intro allI impI)
        fix k assume k: "k < mid + 1"
        have "mid < length a" using mid "1.prems" by simp
        then have "a ! k \<le> a ! mid" using \<open>sorted a\<close> k by (simp add: sorted_iff_nth_mono)
        with ge show "a ! k \<le> x" by simp
      qed
      have "mid + 1 \<le> bisect_loop a x (mid + 1) hi \<and> bisect_loop a x (mid + 1) hi \<le> hi
          \<and> (\<forall>k<bisect_loop a x (mid + 1) hi. a ! k \<le> x)
          \<and> (\<forall>k. bisect_loop a x (mid + 1) hi \<le> k \<and> k < length a \<longrightarrow> x < a ! k)"
        using "1.IH"(2) [OF True mid_def ge \<open>sorted a\<close>] mid "1.prems" low by simp
      with mid step show ?thesis by simp
    qed
  qed
qed

lemma starts_of_snoc:
  "starts_of (sh @ [s]) = starts_of sh @ [int (length (concat sh))]"
  by (simp add: starts_of_def)

lemma load_loop_inv:
  "load_loop d disk (sh, st, c) = (sh', st', c') \<Longrightarrow> st = starts_of sh \<Longrightarrow>
   c = int (length (concat sh)) \<Longrightarrow>
   st' = starts_of sh' \<and> c' = int (length (concat sh'))
   \<and> take (length sh' - length sh) disk = map Some (drop (length sh) sh') \<and> length sh \<le> length sh'
   \<and> take (length sh) sh' = sh"
proof (induction disk arbitrary: sh st c)
  case Nil
  then show ?case by auto
next
  case (Cons f disk)
  show ?case
  proof (cases f)
    case None
    with Cons.prems show ?thesis by auto
  next
    case (Some s)
    show ?thesis
    proof (cases "list_all (\<lambda>v. length v = d) s")
      case False
      with Some Cons.prems show ?thesis by auto
    next
      case True
      with Some Cons.prems
      have run: "load_loop d disk (sh @ [s], st @ [c], c + int (length s)) = (sh', st', c')"
        by simp
      have ih: "st' = starts_of sh' \<and> c' = int (length (concat sh'))
        \<and> take (length sh' - length (sh @ [s])) disk = map Some (drop (length (sh @ [s])) sh')
        \<and> length (sh @ [s]) \<le> length sh' \<and> take (length (sh @ [s])) sh' = sh @ [s]"
        using Cons.IH [OF run] Cons.prems(2,3) by (simp add: starts_of_snoc)
      then have len: "Suc (length sh) \<le> length sh'" by simp
      have tk: "take (Suc (length sh)) sh' = sh @ [s]" using ih by simp
      have t1: "take (length sh) sh' = sh"
      proof -
        have "take (length sh) sh' = take (length sh) (take (Suc (length sh)) sh')"
          by (simp add: min_def)
        then show ?thesis using tk by simp
      qed
      have nth: "sh' ! length sh = s"
      proof -
        have "sh' ! length sh = take (Suc (length sh)) sh' ! length sh" by simp
        then show ?thesis using tk by simp
      qed
      have d1: "drop (length sh) sh' = s # drop (Suc (length sh)) sh'"
        using len nth by (metis Cons_nth_drop_Suc Suc_le_lessD)
      have "length sh' - length sh = Suc (length sh' - Suc (length sh))" using len by simp
      then have "take (length sh' - length sh) (f # disk) = map Some (drop (length sh) sh')"
        using ih Some d1 by simp
      with ih t1 len show ?thesis by simp
    qed
  qed
qed

lemma concat_take_mono:
  "k \<le> k' \<Longrightarrow> length (concat (take k xss)) \<le> length (concat (take k' xss))"
proof -
  assume "k \<le> k'"
  then have "take k' xss = take k xss @ take (k' - k) (drop k xss)"
    by (metis le_add_diff_inverse take_add)
  then show ?thesis by simp
qed

lemma sorted_starts_of: "sorted (starts_of shards)"
  by (simp add: starts_of_def sorted_iff_nth_mono concat_take_mono)

lemma concat_take_Suc:
  "i < length xss \<Longrightarrow> concat (take (Suc i) xss) = concat (take i xss) @ xss ! i"
  by (simp add: take_Suc_conv_app_nth)

lemma concat_nth_shard:
  assumes "i < length xss" "j < length (xss ! i)"
  shows "concat xss ! (length (concat (take i xss)) + j) = xss ! i ! j"
proof -
  have "xss = take i xss @ xss ! i # drop (Suc i) xss"
    using assms(1) by (simp add: id_take_nth_drop)
  then have "concat xss = concat (take i xss) @ xss ! i @ concat (drop (Suc i) xss)"
    by (metis concat.simps(2) concat_append)
  then show ?thesis using assms(2) by (simp add: nth_append)
qed

lemma starts_of_sum:
  "t \<le> length shards \<Longrightarrow> int (length (concat (take t shards))) = (\<Sum>u<t. int (length (shards ! u)))"
  by (induction t) (simp_all add: concat_take_Suc)


lemma load_index_inv:
  assumes "load_index d disk = (shards, starts)"
  shows "starts = starts_of shards \<and> take (length shards) disk = map Some shards"
proof -
  obtain sh st c where run: "load_loop d disk ([], [], 0) = (sh, st, c)"
    by (cases "load_loop d disk ([], [], 0)") auto
  with assms have eq: "sh = shards" "st = starts" by (simp_all add: load_index_def)
  have "starts_of [] = []" by (simp add: starts_of_def)
  with load_loop_inv [OF run] eq show ?thesis by simp
qed

lemma lookup_starts_of:
  assumes o: "0 \<le> x" "x < int (length (concat shards))"
  shows "\<exists>s. s < length shards
      \<and> lookup (starts_of shards) x = Inr (int s, x - starts_of shards ! s)
      \<and> starts_of shards ! s \<le> x
      \<and> x < starts_of shards ! s + int (length (shards ! s))
      \<and> (\<forall>t<length shards. starts_of shards ! t \<le> x \<longrightarrow> t \<le> s)"
proof -
  let ?a = "starts_of shards"
  let ?r = "bisect ?a x"
  have len: "length ?a = length shards" by (simp add: starts_of_def)
  have nth: "\<And>k. k < length shards \<Longrightarrow> ?a ! k = int (length (concat (take k shards)))"
    by (simp add: starts_of_def)
  have ne: "0 < length shards" using o by (cases shards) auto
  have spec: "?r \<le> length ?a \<and> (\<forall>k<?r. ?a ! k \<le> x)
       \<and> (\<forall>k. ?r \<le> k \<and> k < length ?a \<longrightarrow> x < ?a ! k)"
    using bisect_loop_spec [of ?a 0 "length ?a" x] sorted_starts_of [of shards]
    by (simp add: bisect_def)
  have pos: "0 < ?r"
  proof (rule ccontr)
    assume "\<not> 0 < ?r"
    then have "?r = 0" by simp
    with spec ne len have "x < ?a ! 0" by simp
    with nth [OF ne] o show False by simp
  qed
  define s where "s = ?r - 1"
  have s: "s < length shards" "Suc s = ?r" using pos spec len by (auto simp: s_def)
  have le: "?a ! s \<le> x" using spec s by simp
  have up: "x < int (length (concat (take (Suc s) shards)))"
  proof (cases "?r < length shards")
    case True
    with spec len have "x < ?a ! ?r" by simp
    with nth [OF True] s show ?thesis by simp
  next
    case False
    with s have "Suc s = length shards" by simp
    with o show ?thesis by simp
  qed
  have ub: "x < ?a ! s + int (length (shards ! s))"
    using up s(1) by (simp add: nth concat_take_Suc)
  have gr: "\<forall>t<length shards. ?a ! t \<le> x \<longrightarrow> t \<le> s"
  proof (intro allI impI)
    fix t assume t: "t < length shards" "?a ! t \<le> x"
    show "t \<le> s"
    proof (rule ccontr)
      assume "\<not> t \<le> s"
      then have "?r \<le> t" using s by simp
      with spec t len have "x < ?a ! t" by simp
      with t show False by simp
    qed
  qed
  have "py_get ?a (int ?r - 1) = Inr (?a ! s)"
    using s len by (simp add: py_get_def Let_def s_def nat_diff_distrib')
  moreover have "int ?r - 1 = int s" using s by simp
  ultimately have "lookup ?a x = Inr (int s, x - ?a ! s)"
    by (simp add: lookup_def Let_def)
  with s le ub gr show ?thesis by blast
qed

text \<open>
  Claim C3.  For the catalog loaded from any disk, and every global ordinal \<open>x\<close> with
  \<open>0 \<le> x < N\<close>, where \<open>N\<close> is the number of vectors of the loaded shards: the loaded shards are
  the files found from number 1 on, the start of a shard is the sum of the sizes of the shards
  before it, the lookup returns the pair \<open>(s, off)\<close> where \<open>s\<close> is the greatest shard whose start is
  at most \<open>x\<close> and \<open>off = x - start s\<close>, so that \<open>start s \<le> x < start s + size s\<close>, and
  reconstructing from \<open>(s, off)\<close> returns the vector at position \<open>x\<close> of the build order (the
  concatenation of the shards).
\<close>

theorem catalog_lookup_exact:
  assumes "load_index d disk = (shards, starts)"
    and "0 \<le> x" and "x < int (length (concat shards))"
  shows "\<exists>s off. lookup starts x = Inr (int s, off)
      \<and> s < length shards \<and> length starts = length shards
      \<and> take (length shards) disk = map Some shards
      \<and> starts ! s = (\<Sum>u<s. int (length (shards ! u)))
      \<and> off = x - starts ! s
      \<and> starts ! s \<le> x \<and> x < starts ! s + int (length (shards ! s))
      \<and> (\<forall>t<length starts. starts ! t \<le> x \<longrightarrow> t \<le> s \<and> starts ! t \<le> starts ! s)
      \<and> retrieve_vector_from_index x shards starts = Inr (shards ! s ! nat off)
      \<and> shards ! s ! nat off = concat shards ! nat x"
proof -
  from load_index_inv [OF assms(1)]
  have st: "starts = starts_of shards" and dk: "take (length shards) disk = map Some shards"
    by simp_all
  have len: "length starts = length shards" by (simp add: st starts_of_def)
  from lookup_starts_of [OF assms(2,3)] obtain s where
    s: "s < length shards"
    and lk: "lookup starts x = Inr (int s, x - starts ! s)"
    and le: "starts ! s \<le> x"
    and ub: "x < starts ! s + int (length (shards ! s))"
    and gr: "\<forall>t<length shards. starts ! t \<le> x \<longrightarrow> t \<le> s"
    unfolding st by blast
  define off where "off = x - starts ! s"
  have nth: "starts ! s = int (length (concat (take s shards)))"
    using s by (simp add: st starts_of_def)
  have sum: "starts ! s = (\<Sum>u<s. int (length (shards ! u)))"
    using s nth starts_of_sum [of s shards] by simp
  have off: "0 \<le> off" "off < int (length (shards ! s))" using le ub by (simp_all add: off_def)
  have rec: "retrieve_vector_from_index x shards starts = Inr (shards ! s ! nat off)"
    using lk s off by (simp add: retrieve_vector_from_index_def reconstruct_at_def off_def)
  have "nat x = length (concat (take s shards)) + nat off"
    using nth le assms(2) by (simp add: off_def)
  then have cc: "shards ! s ! nat off = concat shards ! nat x"
    using concat_nth_shard [of s shards "nat off"] s off by simp
  have mono: "\<forall>t<length starts. starts ! t \<le> x \<longrightarrow> t \<le> s \<and> starts ! t \<le> starts ! s"
  proof (intro allI impI)
    fix t assume t: "t < length starts" "starts ! t \<le> x"
    with gr len have ts: "t \<le> s" by simp
    have "sorted starts" by (simp add: st sorted_starts_of)
    with ts s len have "starts ! t \<le> starts ! s" by (simp add: sorted_iff_nth_mono)
    with ts show "t \<le> s \<and> starts ! t \<le> starts ! s" by simp
  qed
  from lk s len dk sum le ub mono rec cc show ?thesis
    unfolding off_def by blast
qed

lemma demo_load: "load_index 2 (map Some demo_shards) = (demo_shards, [0, 3, 6])"
  by (simp add: load_index_def demo_shards_def)

theorem catalog_lookup_exact_witness:
  "load_index 2 (map Some demo_shards) = (demo_shards, [0, 3, 6])
   \<and> (\<exists>s off. lookup [0, 3, 6] 5 = Inr (int s, off) \<and> s < length demo_shards
         \<and> [0, 3, 6] ! s \<le> (5::int) \<and> 5 < [0, 3, 6] ! s + int (length (demo_shards ! s))
         \<and> retrieve_vector_from_index 5 demo_shards [0, 3, 6] = Inr (demo_shards ! s ! nat off)
         \<and> demo_shards ! s ! nat off = concat demo_shards ! nat 5)"
proof -
  have "(5::int) < int (length (concat demo_shards))" by (simp add: demo_shards_def)
  from catalog_lookup_exact [OF demo_load _ this] demo_load show ?thesis by fastforce
qed

subsection \<open>Dictionaries\<close>

lemma map_fst_dict_store:
  "map fst (dict_store d k v) = (if k \<in> fst ` set d then map fst d else map fst d @ [k])"
  by (induction d) force+

lemma map_of_dict_store: "map_of (dict_store d k v) = (map_of d)(k \<mapsto> v)"
  by (induction d) auto

lemma fill_dict:
  assumes "for_each (\<lambda>d x. and_then (f x) (\<lambda>v. Inr (dict_store d x v))) xs d = Inr d'"
    and "distinct xs"
  shows "map fst d' = map fst d @ filter (\<lambda>x. x \<notin> fst ` set d) xs
       \<and> (\<forall>x\<in>set xs. \<exists>v. f x = Inr v \<and> map_of d' x = Some v)
       \<and> (\<forall>x. x \<notin> set xs \<longrightarrow> map_of d' x = map_of d x)"
  using assms
proof (induction xs arbitrary: d)
  case Nil
  then show ?case by simp
next
  case (Cons x xs)
  from Cons.prems(1) obtain v where v: "f x = Inr v"
    by (cases "f x") simp_all
  let ?d1 = "dict_store d x v"
  from Cons.prems(1) v
  have run: "for_each (\<lambda>d x. and_then (f x) (\<lambda>v. Inr (dict_store d x v))) xs ?d1 = Inr d'"
    by simp
  from Cons.prems(2) have dx: "distinct xs" and nx: "x \<notin> set xs" by simp_all
  note ih = Cons.IH [OF run dx]
  have keys: "map fst d' = map fst d @ filter (\<lambda>y. y \<notin> fst ` set d) (x # xs)"
  proof (cases "x \<in> fst ` set d")
    case True
    then have "fst ` set ?d1 = fst ` set d"
      using map_fst_dict_store [of d x v] by (metis list.set_map)
    with ih True show ?thesis by (simp add: map_fst_dict_store)
  next
    case False
    then have s: "fst ` set ?d1 = insert x (fst ` set d)"
      using map_fst_dict_store [of d x v] by (metis list.set_map list.simps(15) rotate1.simps(2) set_rotate1)
    have "filter (\<lambda>y. y \<notin> insert x (fst ` set d)) xs = filter (\<lambda>y. y \<notin> fst ` set d) xs"
      using nx by (intro filter_cong) auto
    with ih s False show ?thesis by (simp add: map_fst_dict_store)
  qed
  have "map_of d' x = Some v" using ih nx by (simp add: map_of_dict_store)
  moreover have "\<forall>y. y \<notin> set (x # xs) \<longrightarrow> map_of d' y = map_of d y"
    using ih by (simp add: map_of_dict_store)
  ultimately show ?case using keys ih v by auto
qed

lemma outer_keys:
  assumes "for_each (\<lambda>d i. for_each (\<lambda>d' x. and_then (f i x) (\<lambda>v. Inr (dict_store d' x v))) U d) is d = Inr d'"
    and "distinct U" and "map fst d = [] \<or> map fst d = U"
  shows "map fst d' = [] \<or> map fst d' = U"
  using assms
proof (induction "is" arbitrary: d)
  case Nil
  then show ?case by simp
next
  case (Cons i "is")
  from Cons.prems(1) obtain d1 where
    d1: "for_each (\<lambda>d' x. and_then (f i x) (\<lambda>v. Inr (dict_store d' x v))) U d = Inr d1"
    and rest: "for_each (\<lambda>d i. for_each (\<lambda>d' x. and_then (f i x) (\<lambda>v. Inr (dict_store d' x v))) U d) is d1 = Inr d'"
    by (cases "for_each (\<lambda>d' x. and_then (f i x) (\<lambda>v. Inr (dict_store d' x v))) U d") simp_all
  from fill_dict [OF d1 Cons.prems(2)]
  have k: "map fst d1 = map fst d @ filter (\<lambda>x. x \<notin> fst ` set d) U" by simp
  have "map fst d1 = U"
  proof (cases "map fst d = []")
    case True
    then have "d = []" by simp
    with k show ?thesis by simp
  next
    case False
    with Cons.prems(3) have e: "map fst d = U" by simp
    then have "fst ` set d = set U" by (metis list.set_map)
    with k e show ?thesis by simp
  qed
  with Cons.IH [OF rest Cons.prems(2)] show ?case by simp
qed

lemma queries_result_last:
  assumes "queries_result env vectors qv qw U = Inr scored"
    and "distinct U" and "qv \<noteq> []"
  shows "map fst scored = U
       \<and> (\<forall>p\<in>set scored. score_term env vectors qv qw (length qv - 1) (fst p) = Inr (snd p))"
proof -
  let ?inner = "\<lambda>i d' x. and_then (score_term env vectors qv qw i x) (\<lambda>v. Inr (dict_store d' x v))"
  let ?outer = "\<lambda>d i. for_each (?inner i) U d"
  let ?n = "length qv - 1"
  have up: "[0..<length qv] = [0..<?n] @ [?n]"
    using assms(3) by (metis One_nat_def Suc_pred length_greater_0_conv upt_Suc_append zero_le)
  from assms(1) have "and_then (for_each ?outer [0..<?n] []) (for_each ?outer [?n]) = Inr scored"
    unfolding queries_result_def up for_each_append .
  then obtain d1 where d1: "for_each ?outer [0..<?n] [] = Inr d1"
    and last: "for_each ?outer [?n] d1 = Inr scored"
    by (auto simp: and_then_eq_Inr)
  from last have fin: "for_each (?inner ?n) U d1 = Inr scored"
    by (cases "for_each (?inner ?n) U d1") simp_all
  have k1: "map fst d1 = [] \<or> map fst d1 = U"
    using outer_keys [of "score_term env vectors qv qw" U "[0..<?n]" "[]" d1, OF d1 assms(2)] by simp
  from fill_dict [OF fin assms(2)]
  have k: "map fst scored = map fst d1 @ filter (\<lambda>x. x \<notin> fst ` set d1) U"
    and v: "\<forall>x\<in>set U. \<exists>v. score_term env vectors qv qw ?n x = Inr v \<and> map_of scored x = Some v"
    by simp_all
  have keys: "map fst scored = U"
  proof (cases "map fst d1 = []")
    case True
    then have "d1 = []" by simp
    with k show ?thesis by simp
  next
    case False
    with k1 have e: "map fst d1 = U" by simp
    then have "fst ` set d1 = set U" by (metis list.set_map)
    with k e show ?thesis by simp
  qed
  have "\<forall>p\<in>set scored. score_term env vectors qv qw ?n (fst p) = Inr (snd p)"
  proof
    fix p assume p: "p \<in> set scored"
    have "distinct (map fst scored)" using keys assms(2) by simp
    then have "map_of scored (fst p) = Some (snd p)" using p by simp
    moreover have "fst p \<in> set U" using p keys by (metis image_eqI list.set_map)
    ultimately show "score_term env vectors qv qw ?n (fst p) = Inr (snd p)" using v by auto
  qed
  with keys show ?thesis by simp
qed

subsection \<open>The request on examples\<close>

lemmas eval_search = search_request_def example_env_def flat_search_def indexes_retrieved_def py_get_def
   retrieve_vectors_def retrieve_vector_from_index_def lookup_def bisect_def bisect_loop.simps
   reconstruct_at_def queries_result_def score_term_def dict_get_def compute_similarity_def np_dot_def
   rank_results_def np_sub_def np_sum_square_def eval_nat_numeral

text \<open>
  Claim C1 (the code differs).  Two queries with weights 2 and 1, one stored vector whose
  similarities to them are 0.5 and 0.3: the search returns it for both queries, and the score
  the request assigns to it is 0.3, the term of the last query, not the sum 1.3.
\<close>

theorem fusion_scores_last_query_only:
  "compute_similarity [1/2, 3/10] [1, 0] ''dot'' = Inr (1/2)
   \<and> compute_similarity [1/2, 3/10] [0, 1] ''dot'' = Inr (3/10)
   \<and> shards_search fusion_env [[1, 0], [0, 1]] 1 = [[0], [0]]
   \<and> search_request fusion_env [[1, 0], [0, 1]] [2, 1] 1 = Inr [(0, 3/10)]
   \<and> (3/10 :: real) \<noteq> 2 * (1/2) + 1 * (3/10)"
  by (simp add: fusion_env_def eval_search)

text \<open>
  Claim C2 (the code differs).  Two queries; the search returns ordinal 0 for the first and
  ordinal 1 for the second: the candidate set holds ordinal 1 only, and ordinal 0 is in no
  result.
\<close>

theorem candidates_of_last_query_only:
  "shards_search union_env [[1, 0], [0, 1]] 1 = [[0], [1]]
   \<and> indexes_retrieved (set_iter union_env) (shards_search union_env [[1, 0], [0, 1]] 1) 2 = Inr [1]
   \<and> search_request union_env [[1, 0], [0, 1]] [2, 1] 1 = Inr [(1, 1)]"
  by (simp add: union_env_def eval_search)

subsection \<open>Ranking\<close>

lemma rank_results_take:
  "rank_results items k = take (nat (min (int (length items)) k)) (sort_key (\<lambda>p. - snd p) items)"
proof -
  let ?r = "sort_key (\<lambda>p. - snd p) items"
  let ?n = "nat (min (int (length ?r)) k)"
  have n: "?n \<le> length ?r" by simp
  have "map (\<lambda>i. ?r ! i) [0..<?n] = take ?n ?r"
    using n by (intro nth_equalityI) simp_all
  then show ?thesis by (simp add: rank_results_def Let_def)
qed

lemma sorted_desc_sort_key:
  "sorted_wrt (\<lambda>p q. snd q \<le> (snd p :: real)) (sort_key (\<lambda>p. - snd p) items)"
proof -
  have "sorted (map (\<lambda>p. - snd p) (sort_key (\<lambda>p. - snd p) items))"
    by (rule sorted_sort_key)
  then show ?thesis by (simp add: sorted_map)
qed

lemma take_dominates:
  assumes "sorted_wrt (\<lambda>p q. snd q \<le> (snd p :: real)) xs" and "distinct xs"
    and "p \<in> set xs" and "p \<notin> set (take n xs)" and "q \<in> set (take n xs)"
  shows "snd p \<le> snd q"
proof -
  from assms(5) obtain i where i: "i < n" "i < length xs" "q = xs ! i"
    by (auto simp: in_set_conv_nth)
  from assms(3) obtain j where j: "j < length xs" "p = xs ! j"
    by (auto simp: in_set_conv_nth)
  have "\<not> j < n"
  proof
    assume "j < n"
    with j have "p \<in> set (take n xs)" by (auto simp: in_set_conv_nth)
    with assms(4) show False by simp
  qed
  with i have "i < j" by simp
  with assms(1) i j show ?thesis by (simp add: sorted_wrt_iff_nth_less)
qed

lemma indexes_retrieved_set:
  assumes "set_iteration it" and "indexes_retrieved it indexes n = Inr U"
  shows "0 < n \<and> distinct U
       \<and> (\<exists>row. py_get indexes (int n - 1) = Inr row \<and> set U = {x \<in> set row. 0 \<le> x})"
proof -
  from assms(2) have n: "0 < n" by (cases "n = 0") (simp_all add: indexes_retrieved_def)
  with assms(2) obtain row where row: "py_get indexes (int n - 1) = Inr row"
    and U: "U = it [x. x \<leftarrow> row, i \<leftarrow> [0..<n], 0 \<le> x]"
    by (auto simp: indexes_retrieved_def and_then_eq_Inr)
  have "set [x. x \<leftarrow> row, i \<leftarrow> [0..<n], 0 \<le> x] = {x \<in> set row. 0 \<le> x}"
    using n by auto
  with assms(1) U have "distinct U" "set U = {x \<in> set row. 0 \<le> x}"
    by (simp_all add: set_iteration_def)
  with n row show ?thesis by blast
qed

text \<open>
  Claim C6.  Whenever a request returns a list: the candidates \<open>U\<close> are the non-negative
  ordinals of the row the candidate set is built from, each once; \<open>scored\<close> pairs every
  candidate with the score the request computed for it; and the returned list is \<open>scored\<close>
  sorted by descending score (for every similarity, the distances included, with no
  inversion) and cut to its first \<open>min(K, |U|)\<close> pairs: it has exactly that length, its
  pairs are pairs of \<open>scored\<close> with distinct ordinals, its scores descend, and no pair left
  out has a score above one that is returned.
\<close>

theorem search_result_ranked:
  assumes "set_iteration (set_iter env)"
    and "search_request env qv qw k = Inr result"
  shows "\<exists>row U vectors scored.
       py_get (shards_search env qv k) (int (length qv) - 1) = Inr row
     \<and> set U = {x \<in> set row. 0 \<le> x} \<and> distinct U
     \<and> queries_result env vectors qv qw U = Inr scored
     \<and> map fst scored = U
     \<and> result = take (nat (min (int (length U)) k)) (sort_key (\<lambda>p. - snd p) scored)
     \<and> length result = nat (min (int (length U)) k)
     \<and> set result \<subseteq> set scored \<and> distinct (map fst result)
     \<and> sorted_wrt (\<lambda>p q. snd q \<le> snd p) result
     \<and> (\<forall>p\<in>set scored. p \<notin> set result \<longrightarrow> (\<forall>q\<in>set result. snd p \<le> snd q))"
proof -
  from assms(2) obtain U vectors scored where
    U: "indexes_retrieved (set_iter env) (shards_search env qv k) (length qv) = Inr U"
    and vs: "retrieve_vectors env U = Inr vectors"
    and sc: "queries_result env vectors qv qw U = Inr scored"
    and res: "result = rank_results scored k"
    by (auto simp: search_request_def Let_def and_then_eq_Inr)
  from indexes_retrieved_set [OF assms(1) U] obtain row where
    q: "qv \<noteq> []" and dU: "distinct U"
    and row: "py_get (shards_search env qv k) (int (length qv) - 1) = Inr row"
    and sU: "set U = {x \<in> set row. 0 \<le> x}"
    by auto
  from queries_result_last [OF sc dU q] have keys: "map fst scored = U" by simp
  then have len: "length scored = length U" by (metis length_map)
  let ?s = "sort_key (\<lambda>p. - snd p) scored"
  let ?n = "nat (min (int (length U)) k)"
  have r: "result = take ?n ?s" using res len by (simp add: rank_results_take)
  have dk: "distinct (map fst ?s)"
    using keys dU by (metis distinct_map distinct_sort set_sort)
  have "distinct (map fst result)" unfolding r take_map [symmetric] using dk by (rule distinct_take)
  moreover have "length result = ?n" using r len by simp
  moreover have "set result \<subseteq> set scored" using r by (metis set_sort set_take_subset)
  moreover have "sorted_wrt (\<lambda>p q. snd q \<le> snd p) result"
    unfolding r using sorted_desc_sort_key by (rule sorted_wrt_take)
  moreover have "\<forall>p\<in>set scored. p \<notin> set result \<longrightarrow> (\<forall>q\<in>set result. snd p \<le> snd q)"
  proof (intro ballI impI)
    fix p q assume "p \<in> set scored" "p \<notin> set result" "q \<in> set result"
    moreover have "distinct ?s" using dk by (simp add: distinct_map)
    ultimately show "snd p \<le> snd q"
      using take_dominates [of ?s p ?n q] sorted_desc_sort_key [of scored] by (simp add: r)
  qed
  ultimately show ?thesis using row sU dU sc keys r by blast
qed


theorem search_result_ranked_witness:
  "set_iteration (set_iter distance_env)
   \<and> search_request distance_env [[0, 1]] [1] 2 = Inr [(1, 25), (0, 0)]
   \<and> (\<exists>row U vectors scored.
       py_get (shards_search distance_env [[0, 1]] 2) (int (length [[0, 1 :: real]]) - 1) = Inr row
     \<and> set U = {x \<in> set row. 0 \<le> x} \<and> distinct U
     \<and> queries_result distance_env vectors [[0, 1]] [1] U = Inr scored
     \<and> map fst scored = U
     \<and> [(1, 25), (0, 0)] = take (nat (min (int (length U)) 2)) (sort_key (\<lambda>p. - snd p) scored)
     \<and> length [(1 :: int, 25 :: real), (0, 0)] = nat (min (int (length U)) 2))"
proof -
  have h1: "set_iteration (set_iter distance_env)"
    by (simp add: distance_env_def example_env_def set_iteration_def)
  have h2: "search_request distance_env [[0, 1]] [1] 2 = Inr [(1, 25), (0, 0)]"
    by (simp add: distance_env_def eval_search)
  from search_result_ranked [OF h1 h2] h1 h2 show ?thesis by blast
qed

subsection \<open>Requests that return\<close>

lemma for_each_total:
  "(\<And>s x. x \<in> set xs \<Longrightarrow> \<exists>s'. body s x = Inr s') \<Longrightarrow> \<exists>s'. for_each body xs s = Inr s'"
proof (induction xs arbitrary: s)
  case Nil
  show ?case by simp
next
  case (Cons x xs)
  from Cons.prems [of x s] obtain s1 where s1: "body s x = Inr s1" by auto
  from Cons.IH [of s1] Cons.prems obtain s' where "for_each body xs s1 = Inr s'" by auto
  with s1 show ?case by simp
qed

lemma load_loop_width:
  "load_loop d disk (sh, st, c) = (sh', st', c') \<Longrightarrow>
   list_all (list_all (\<lambda>v. length v = d)) sh \<Longrightarrow> list_all (list_all (\<lambda>v. length v = d)) sh'"
proof (induction disk arbitrary: sh st c)
  case Nil
  then show ?case by simp
next
  case (Cons f disk)
  show ?case
  proof (cases f)
    case None
    with Cons.prems show ?thesis by simp
  next
    case (Some s)
    show ?thesis
    proof (cases "list_all (\<lambda>v. length v = d) s")
      case False
      with Some Cons.prems show ?thesis by simp
    next
      case True
      with Some Cons.prems
      have "load_loop d disk (sh @ [s], st @ [c], c + int (length s)) = (sh', st', c')" by simp
      from Cons.IH [OF this] True Cons.prems(2) show ?thesis by simp
    qed
  qed
qed

lemma retrieve_loaded:
  assumes "load_index d disk = (shs, starts)"
    and "0 \<le> x" and "x < int (length (concat shs))"
  shows "\<exists>v. retrieve_vector_from_index x shs starts = Inr v \<and> length v = d"
proof -
  from load_index_inv [OF assms(1)] have st: "starts = starts_of shs" by simp
  from lookup_starts_of [OF assms(2,3)] obtain s where
    s: "s < length shs"
    and lk: "lookup starts x = Inr (int s, x - starts ! s)"
    and le: "starts ! s \<le> x"
    and ub: "x < starts ! s + int (length (shs ! s))"
    unfolding st by blast
  have rec: "retrieve_vector_from_index x shs starts = Inr (shs ! s ! nat (x - starts ! s))"
    using lk s le ub by (simp add: retrieve_vector_from_index_def reconstruct_at_def)
  obtain sh st' c where run: "load_loop d disk ([], [], 0) = (sh, st', c)"
    by (cases "load_loop d disk ([], [], 0)") auto
  with assms(1) have "sh = shs" by (simp add: load_index_def)
  with load_loop_width [OF run] have "list_all (list_all (\<lambda>v. length v = d)) shs" by simp
  with s have "list_all (\<lambda>v. length v = d) (shs ! s)" by (simp add: list_all_length)
  moreover have "nat (x - starts ! s) < length (shs ! s)" using le ub by simp
  ultimately have "length (shs ! s ! nat (x - starts ! s)) = d" by (simp add: list_all_length)
  with rec show ?thesis by simp
qed

lemma compute_similarity_total:
  assumes "sim \<in> set choices" and "length x = length y"
  shows "\<exists>s. compute_similarity x y sim = Inr s"
  using assms by (auto simp: compute_similarity_def choices_def np_dot_def np_sub_def)

lemma search_request_returns:
  assumes it: "set_iteration (set_iter env)"
    and ld: "load_index d disk = (env_shards env, env_shards_start env)"
    and sim: "env_similarity env \<in> set choices"
    and q: "qv \<noteq> []" and w: "length qw = length qv"
    and wd: "\<forall>q\<in>set qv. length q = d"
    and rows: "length (shards_search env qv k) = length qv"
    and ords: "\<forall>x\<in>set (last (shards_search env qv k)). x < int (length (concat (env_shards env)))"
  shows "\<exists>result. search_request env qv qw k = Inr result"
proof -
  let ?ix = "shards_search env qv k"
  let ?n = "length qv"
  have n: "0 < ?n" using q by simp
  have row: "py_get ?ix (int ?n - 1) = Inr (last ?ix)"
  proof -
    have "?ix \<noteq> []" using rows q by auto
    then have "last ?ix = ?ix ! (length ?ix - 1)" by (rule last_conv_nth)
    moreover have "nat (int ?n - 1) = ?n - 1" by simp
    ultimately show ?thesis using rows n by (simp add: py_get_def Let_def)
  qed
  define U where "U = set_iter env [x. x \<leftarrow> last ?ix, i \<leftarrow> [0..<?n], 0 \<le> x]"
  have U: "indexes_retrieved (set_iter env) ?ix ?n = Inr U"
    using n row by (simp add: indexes_retrieved_def U_def)
  from indexes_retrieved_set [OF it U] row
  have dU: "distinct U" and sU: "set U = {x \<in> set (last ?ix). 0 \<le> x}" by auto
  have inU: "\<And>x. x \<in> set U \<Longrightarrow> 0 \<le> x \<and> x < int (length (concat (env_shards env)))"
    using sU ords by auto
  have "\<exists>vectors. retrieve_vectors env U = Inr vectors"
    unfolding retrieve_vectors_def
  proof (rule for_each_total)
    fix s x assume "x \<in> set U"
    with inU retrieve_loaded [OF ld, of x] obtain v where
      "retrieve_vector_from_index x (env_shards env) (env_shards_start env) = Inr v" by blast
    then show "\<exists>s'. and_then (retrieve_vector_from_index x (env_shards env) (env_shards_start env))
        (\<lambda>v. Inr (dict_store s x v)) = Inr s'" by simp
  qed
  then obtain vectors where vs: "retrieve_vectors env U = Inr vectors" by blast
  have vals: "\<And>x. x \<in> set U \<Longrightarrow> \<exists>v. dict_get vectors x = Inr v \<and> length v = d"
  proof -
    fix x assume x: "x \<in> set U"
    from fill_dict [OF vs [unfolded retrieve_vectors_def] dU] x obtain v where
      v: "retrieve_vector_from_index x (env_shards env) (env_shards_start env) = Inr v"
      and m: "map_of vectors x = Some v" by blast
    from inU [OF x] retrieve_loaded [OF ld, of x] v have "length v = d" by auto
    with m show "\<exists>v. dict_get vectors x = Inr v \<and> length v = d" by (simp add: dict_get_def)
  qed
  have sc_ok: "\<And>i x. i < ?n \<Longrightarrow> x \<in> set U \<Longrightarrow> \<exists>s. score_term env vectors qv qw i x = Inr s"
  proof -
    fix i x assume i: "i < ?n" and x: "x \<in> set U"
    from vals [OF x] obtain v where v: "dict_get vectors x = Inr v" "length v = d" by blast
    have gw: "py_get qw (int i) = Inr (qw ! i)" using i w by (simp add: py_get_def)
    have gq: "py_get qv (int i) = Inr (qv ! i)" using i by (simp add: py_get_def)
    have "length (qv ! i) = d" using wd i by simp
    with compute_similarity_total [OF sim, of v "qv ! i"] v obtain s where
      "compute_similarity v (qv ! i) (env_similarity env) = Inr s" by auto
    with v gw gq show "\<exists>s. score_term env vectors qv qw i x = Inr s"
      by (simp add: score_term_def)
  qed
  have "\<exists>scored. queries_result env vectors qv qw U = Inr scored"
    unfolding queries_result_def
  proof (rule for_each_total)
    fix s i assume "i \<in> set [0..<?n]"
    then have i: "i < ?n" by simp
    show "\<exists>s'. for_each (\<lambda>d' x. and_then (score_term env vectors qv qw i x)
        (\<lambda>v. Inr (dict_store d' x v))) U s = Inr s'"
    proof (rule for_each_total)
      fix s2 x assume "x \<in> set U"
      from sc_ok [OF i this] obtain sc where "score_term env vectors qv qw i x = Inr sc" by blast
      then show "\<exists>s'. and_then (score_term env vectors qv qw i x)
          (\<lambda>v. Inr (dict_store s2 x v)) = Inr s'" by simp
    qed
  qed
  then obtain scored where "queries_result env vectors qv qw U = Inr scored" by blast
  with U vs show ?thesis by (simp add: search_request_def Let_def)
qed

subsection \<open>The text store\<close>

lemma py_split_nonempty: "py_split sep s \<noteq> []"
  by (induction s) (auto split: list.splits)

lemma py_split_prefix:
  "sep \<notin> set a \<Longrightarrow> py_split sep (a @ sep # rest) = a # py_split sep rest"
  by (induction a) (auto split: list.splits simp: py_split_nonempty)

lemma py_split_first:
  "\<exists>ws. py_split sep s = takeWhile (\<lambda>c. c \<noteq> sep) s # ws"
  by (induction s) (auto split: list.splits)

lemma py_split_no_sep: "sep \<notin> set s \<Longrightarrow> py_split sep s = [s]"
  by (induction s) (auto split: list.splits)

text \<open>
  Claim C9, amended.  Resolving an ordinal seeks to \<open>offsets[ordinal]\<close>, reads one line,
  strips spaces, tabs and line ends from both of its ends and cuts it at every tab: when
  the stripped line is an id without a tab, a tab and a rest, the record is the id and the
  part of the rest before its first tab (the whole rest when it has no tab).
\<close>

theorem resolve_document_fields:
  assumes "py_get refs doc_index = Inr off" and "0 \<le> off"
    and "py_strip [CHR '' '', TAB, CR, LF] (readline (drop (nat off) file)) = doc_id @ TAB # rest"
    and "TAB \<notin> set doc_id"
  shows "resolve_document file refs doc_index = Inr (doc_id, takeWhile (\<lambda>c. c \<noteq> TAB) rest)"
proof -
  obtain ws where ws: "py_split TAB rest = takeWhile (\<lambda>c. c \<noteq> TAB) rest # ws"
    using py_split_first by blast
  have "py_split TAB (doc_id @ TAB # rest) = doc_id # takeWhile (\<lambda>c. c \<noteq> TAB) rest # ws"
    using py_split_prefix [OF assms(4)] ws by simp
  then show ?thesis
    using assms(1,2,3) by (simp add: resolve_document_def Let_def py_get_def)
qed

lemma resolve_document_no_tab:
  assumes "py_get refs doc_index = Inr off" and "0 \<le> off"
    and "TAB \<notin> set (py_strip [CHR '' '', TAB, CR, LF] (readline (drop (nat off) file)))"
  shows "resolve_document file refs doc_index = Inl IndexError"
  using assms by (simp add: resolve_document_def Let_def py_get_def py_split_no_sep)

theorem resolve_document_fields_witness:
  "py_get [0, 10] 1 = Inr (10::int) \<and> (0::int) \<le> 10
   \<and> py_strip [CHR '' '', TAB, CR, LF]
        (readline (drop (nat 10) (''d0'' @ [TAB] @ ''a text'' @ [LF] @ ''d1'' @ [TAB] @ ''foo'' @ [TAB] @ ''bar'' @ [LF])))
      = ''d1'' @ TAB # (''foo'' @ [TAB] @ ''bar'')
   \<and> TAB \<notin> set ''d1''
   \<and> resolve_document (''d0'' @ [TAB] @ ''a text'' @ [LF] @ ''d1'' @ [TAB] @ ''foo'' @ [TAB] @ ''bar'' @ [LF]) [0, 10] 1
      = Inr (''d1'', ''foo'')"
proof -
  have h1: "py_get [0, 10] 1 = Inr (10::int)" by (simp add: py_get_def)
  have h2: "(0::int) \<le> 10" by simp
  have h3: "py_strip [CHR '' '', TAB, CR, LF]
        (readline (drop (nat 10) (''d0'' @ [TAB] @ ''a text'' @ [LF] @ ''d1'' @ [TAB] @ ''foo'' @ [TAB] @ ''bar'' @ [LF])))
      = ''d1'' @ TAB # (''foo'' @ [TAB] @ ''bar'')"
    by (simp add: py_strip_def readline_def TAB_def LF_def CR_def)
  have h4: "TAB \<notin> set ''d1''" by (simp add: TAB_def)
  have "takeWhile (\<lambda>c. c \<noteq> TAB) (''foo'' @ [TAB] @ ''bar'') = ''foo''" by (simp add: TAB_def)
  with resolve_document_fields [OF h1 h2 h3 h4] h1 h2 h3 h4 show ?thesis by simp
qed

text \<open>
  Claim C9 as stated fails where the text has a tab: of the line \<open>d1 TAB foo TAB bar\<close> the
  text returned is \<open>foo\<close>, not the remainder \<open>foo TAB bar\<close>.
\<close>

theorem text_after_second_tab_is_dropped:
  "resolve_document (''d1'' @ [TAB] @ ''foo'' @ [TAB] @ ''bar'' @ [LF]) [0] 0 = Inr (''d1'', ''foo'')
   \<and> resolve_document (''d1'' @ [TAB] @ ''foo'' @ [TAB] @ ''bar'' @ [LF]) [0] 0
       \<noteq> Inr (''d1'', ''foo'' @ [TAB] @ ''bar'')"
  by (simp add: resolve_document_def py_get_def readline_def py_strip_def TAB_def LF_def CR_def)

subsection \<open>The run\<close>

lemma read_queries_shorter:
  "read_queries env n inp qs ws = Some (Inr (qs', ws', inp')) \<Longrightarrow> length inp' \<le> length inp"
proof (induction n arbitrary: inp qs ws)
  case 0
  then show ?case by simp
next
  case (Suc n)
  then show ?case
    by (cases inp) (fastforce split: sum.splits list.splits option.splits simp: Let_def)+
qed

lemma read_request_shorter:
  assumes "read_request env inp = Some (Inr (qs, ws, k, inp'))"
  shows "length inp' < length inp"
  using assms read_queries_shorter
  by (fastforce simp: read_request_def split: list.splits option.splits sum.splits if_splits)

lemma run_loop_enough_fuel:
  "length inp < fuel \<Longrightarrow> \<exists>r. run_loop fuel env inp = Some r"
proof (induction fuel arbitrary: inp)
  case 0
  then show ?case by simp
next
  case (Suc fuel)
  show ?case
  proof (cases "read_request env inp")
    case None
    then show ?thesis by simp
  next
    case (Some r)
    show ?thesis
    proof (cases r)
      case (Inl e)
      with Some show ?thesis by simp
    next
      case (Inr t)
      obtain qs ws k inp' where t: "t = (qs, ws, k, inp')" by (cases t) auto
      with Some Inr have "length inp' < length inp" using read_request_shorter by blast
      with Suc.prems have "length inp' < fuel" by simp
      from Suc.IH [OF this] obtain r' where "run_loop fuel env inp' = Some r'" by blast
      with Some Inr t show ?thesis
        by (cases "answer_request env qs ws k") (auto split: option.splits prod.splits)
    qed
  qed
qed

lemma search_script_returns: "\<exists>r. search_script env inp = Some r"
proof -
  obtain r where "run_loop (Suc (length inp)) env inp = Some r"
    using run_loop_enough_fuel [of inp "Suc (length inp)" env] by auto
  then show ?thesis
    by (cases r) (auto simp: search_script_def split: outcome.splits)
qed

text \<open>
  Claim C7.  When the input left, at any pass of the run loop, starts with a request that
  reads well and whose document count is below 1, the loop ends there: it makes no shard
  search, writes no line and no sync line, raises nothing, and whatever follows in the
  input is not read.  A run that starts with such a request emits the sync line of the
  init phase and nothing else.
\<close>

theorem stop_request_is_clean:
  assumes "int_of_line env ql = Some nq" and "0 \<le> nq"
    and "read_queries env (nat nq) inp [] [] = Some (Inr (qs, ws, kl # rest))"
    and "int_of_line env kl = Some k" and "k < 1"
  shows "read_request env (ql # inp) = None
       \<and> run_loop (Suc fuel) env (ql # inp) = Some ([], Clean)
       \<and> search_script env (ql # inp) = Some ([Sync], Clean)"
proof -
  have r: "read_request env (ql # inp) = None"
    using assms by (simp add: read_request_def)
  then have "\<And>f. run_loop (Suc f) env (ql # inp) = Some ([], Clean)" by simp
  then show ?thesis using r by (simp add: search_script_def)
qed

theorem stop_request_is_clean_witness:
  "int_of_line fusion_env ''2'' = Some 2 \<and> (0::int) \<le> 2
   \<and> read_queries fusion_env (nat 2) [''first'', ''2.0'', ''second'', ''1.0'', ''0'', ''1'', ''first''] [] []
       = Some (Inr ([[1, 0], [0, 1]], [2, 1], ''0'' # [''1'', ''first'']))
   \<and> int_of_line fusion_env ''0'' = Some 0 \<and> (0::int) < 1
   \<and> search_script fusion_env [''2'', ''first'', ''2.0'', ''second'', ''1.0'', ''0'', ''1'', ''first'']
       = Some ([Sync], Clean)"
proof -
  have h1: "int_of_line fusion_env ''2'' = Some 2" by (simp add: fusion_env_def example_env_def)
  have h2: "(0::int) \<le> 2" by simp
  have h3: "read_queries fusion_env (nat 2) [''first'', ''2.0'', ''second'', ''1.0'', ''0'', ''1'', ''first''] [] []
       = Some (Inr ([[1, 0], [0, 1]], [2, 1], ''0'' # [''1'', ''first'']))"
    by (simp add: fusion_env_def example_env_def store_row_def eval_nat_numeral)
  have h4: "int_of_line fusion_env ''0'' = Some 0" by (simp add: fusion_env_def example_env_def)
  have h5: "(0::int) < 1" by simp
  from stop_request_is_clean [OF h1 h2 h3 h4 h5] h1 h2 h3 h4 h5 show ?thesis by simp
qed

subsection \<open>The builder\<close>

lemma np_divide_rows: "np_divide m v = Inr x \<Longrightarrow> length x = length m"
  by (auto simp: np_divide_def split: if_splits)

lemma process_batch_appends:
  assumes "process_batch env enc batch idx = Inr (idx', t1, t2)"
  shows "idx' = idx @ batch_vectors env enc batch \<and> length (batch_vectors env enc batch) = length batch"
proof (cases "length batch = 0")
  case True
  with assms show ?thesis by (simp add: process_batch_def batch_vectors_def)
next
  case False
  show ?thesis
  proof (cases "similarity env = ''cos''")
    case cos: True
    from assms False cos obtain x where
      x: "np_divide (map enc batch) (map np_norm (map enc batch)) = Inr x"
      and a: "faiss_add (vector_size env) idx x = Inr idx'"
      by (auto simp: process_batch_def Let_def and_then_eq_Inr)
    from a have w: "array_width x = vector_size env" and i: "idx' = idx @ x"
      by (auto simp: faiss_add_def split: if_splits)
    have "batch_vectors env enc batch = x"
      using False cos x w by (simp add: batch_vectors_def process_batch_def Let_def faiss_add_def)
    with i np_divide_rows [OF x] show ?thesis by simp
  next
    case other: False
    from assms False other have a: "faiss_add (vector_size env) idx (map enc batch) = Inr idx'"
      by (auto simp: process_batch_def Let_def and_then_eq_Inr)
    then have w: "array_width (map enc batch) = vector_size env" and i: "idx' = idx @ map enc batch"
      by (auto simp: faiss_add_def split: if_splits)
    have "batch_vectors env enc batch = map enc batch"
      using False other w by (simp add: batch_vectors_def process_batch_def Let_def faiss_add_def)
    with i show ?thesis by simp
  qed
qed


lemma batch_vectors_empty: "batch_vectors env enc [] = []"
  by (simp add: batch_vectors_def process_batch_def)

lemma flush_batch_ok:
  assumes "flush_batch env enc st = (st', None)"
    and "faiss_index st = concat (map (batch_vectors env enc) g)"
    and "doc_index_counter st = int (length (concat g))"
  shows "text_batch st' = []
    \<and> (let g1 = g @ (if text_batch st = [] then [] else [text_batch st]) in
        if chunks_size env \<le> int (length (concat g1)) then
          written st' = written st @ [(index_counter st + 1, concat (map (batch_vectors env enc) g1))]
          \<and> index_counter st' = index_counter st + 1
          \<and> faiss_index st' = [] \<and> doc_index_counter st' = 0
        else
          written st' = written st \<and> index_counter st' = index_counter st
          \<and> faiss_index st' = concat (map (batch_vectors env enc) g1)
          \<and> doc_index_counter st' = int (length (concat g1)))"
proof (cases "text_batch st = []")
  case True
  with assms show ?thesis
    by (auto simp: flush_batch_def Let_def roll_over_def)
next
  case False
  with assms(1) obtain idx t1 t2 where
    p: "process_batch env enc (text_batch st) (faiss_index st) = Inr (idx, t1, t2)"
    by (auto simp: flush_batch_def split: sum.splits)
  from process_batch_appends [OF p]
  have idx: "idx = faiss_index st @ batch_vectors env enc (text_batch st)" by simp
  from assms(1) False p idx assms(2,3) show ?thesis
    by (auto simp: flush_batch_def Let_def roll_over_def)
qed

lemma finish_ok:
  assumes "finish env enc st = (st', None)"
    and "faiss_index st = concat (map (batch_vectors env enc) g)"
    and "doc_index_counter st = int (length (concat g))"
  shows "written st' = written st @ number_from (index_counter st)
           (map (\<lambda>g. concat (map (batch_vectors env enc) g))
              (group_batches (chunks_size env) g (batches_from (batch_size env) (text_batch st) [])))"
proof (cases "text_batch st = []")
  case True
  with assms show ?thesis
    by (auto simp: finish_def Let_def)
next
  case False
  with assms(1) obtain idx t1 t2 where
    p: "process_batch env enc (text_batch st) (faiss_index st) = Inr (idx, t1, t2)"
    by (auto simp: finish_def split: sum.splits)
  from process_batch_appends [OF p]
  have idx: "idx = faiss_index st @ batch_vectors env enc (text_batch st)" by simp
  have "0 < length (text_batch st)" using False by simp
  then have pos: "0 < int (length (concat g)) + int (length (text_batch st))"
    by linarith
  have ne: "concat g @ text_batch st \<noteq> []" using False by simp
  from assms(1) False p idx assms(2,3) pos ne show ?thesis
    by (auto simp: finish_def Let_def)
qed

lemma number_from_append:
  "number_from k (xs @ ys) = number_from k xs @ number_from (k + int (length xs)) ys"
  by (induction xs arbitrary: k) (simp_all add: add.assoc)

lemma build_run_shards:
  assumes "build_loop env enc lines st = (st1, None)"
    and "finish env enc st1 = (st2, None)"
    and "faiss_index st = concat (map (batch_vectors env enc) g)"
    and "doc_index_counter st = int (length (concat g))"
    and "int (length (concat g)) < chunks_size env"
  shows "written st2 = written st @ number_from (index_counter st)
           (map (\<lambda>g. concat (map (batch_vectors env enc) g))
              (group_batches (chunks_size env) g (batches_from (batch_size env) (text_batch st) lines)))"
  using assms
proof (induction lines arbitrary: st g)
  case Nil
  then show ?case using finish_ok [of env enc st st2 g] by simp
next
  case (Cons l ls)
  let ?bv = "batch_vectors env enc"
  let ?shard = "\<lambda>g. concat (map ?bv g)"
  let ?c = "chunks_size env"
  let ?b = "batch_size env"
  define st_a where "st_a = (if l \<noteq> [] then st\<lparr> text_batch := text_batch st @ [l] \<rparr> else st)"
  define p' where "p' = (if l \<noteq> [] then text_batch st @ [l] else text_batch st)"
  have tb: "text_batch st_a = p'" by (simp add: st_a_def p'_def)
  have same: "faiss_index st_a = faiss_index st" "doc_index_counter st_a = doc_index_counter st"
    "written st_a = written st" "index_counter st_a = index_counter st"
    by (simp_all add: st_a_def)
  show ?case
  proof (cases "l = [] \<or> ?b \<le> int (length p')")
    case False
    have "build_loop env enc (l # ls) st = build_loop env enc ls st_a"
      using False unfolding p'_def st_a_def by (auto simp: Let_def)
    then have run: "build_loop env enc ls st_a = (st1, None)"
      using Cons.prems(1) by simp
    have spec: "batches_from ?b (text_batch st) (l # ls) = batches_from ?b p' ls"
      using False by (auto simp: p'_def Let_def)
    from Cons.IH [OF run Cons.prems(2), of g] Cons.prems(3,4,5) same tb spec
    show ?thesis by simp
  next
    case True
    have "build_loop env enc (l # ls) st =
        (case flush_batch env enc st_a of
           (st2, Some e) \<Rightarrow> (st2, Some e)
         | (st2, None) \<Rightarrow> build_loop env enc ls st2)"
      using True unfolding p'_def st_a_def by (auto simp: Let_def)
    with Cons.prems(1) obtain st_b where fl: "flush_batch env enc st_a = (st_b, None)"
      and run: "build_loop env enc ls st_b = (st1, None)"
      by (auto split: prod.splits option.splits)
    define g1 where "g1 = g @ (if p' = [] then [] else [p'])"
    have spec: "batches_from ?b (text_batch st) (l # ls)
        = (if p' = [] then [] else [p']) @ batches_from ?b [] ls"
      using True by (auto simp: p'_def Let_def)
    note f = flush_batch_ok [OF fl, of g, unfolded tb same Let_def, folded g1_def]
    have tb_b: "text_batch st_b = []" using f Cons.prems(3,4) by simp
    show ?thesis
    proof (cases "?c \<le> int (length (concat g1))")
      case full: True
      then have ne: "p' \<noteq> []" using Cons.prems(5) by (auto simp: g1_def split: if_splits)
      from full f Cons.prems(3,4) have
        w: "written st_b = written st @ [(index_counter st + 1, ?shard g1)]"
        and ic: "index_counter st_b = index_counter st + 1"
        and e: "faiss_index st_b = []" "doc_index_counter st_b = 0"
        by simp_all
      have grp: "group_batches ?c g (batches_from ?b (text_batch st) (l # ls))
          = g1 # group_batches ?c [] (batches_from ?b [] ls)"
        unfolding spec using full ne by (simp add: g1_def Let_def)
      have "0 < ?c" using Cons.prems(5) by linarith
      with Cons.IH [OF run Cons.prems(2), of "[]"] e tb_b
      have "written st2 = written st_b @ number_from (index_counter st_b)
           (map ?shard (group_batches ?c [] (batches_from ?b [] ls)))"
        by simp
      with w ic grp show ?thesis by simp
    next
      case notfull: False
      from notfull f Cons.prems(3,4) have
        w: "written st_b = written st" and ic: "index_counter st_b = index_counter st"
        and e: "faiss_index st_b = ?shard g1" "doc_index_counter st_b = int (length (concat g1))"
        by simp_all
      have grp: "group_batches ?c g (batches_from ?b (text_batch st) (l # ls))
          = group_batches ?c g1 (batches_from ?b [] ls)"
        unfolding spec using notfull by (cases "p' = []") (simp_all add: g1_def Let_def)
      from Cons.IH [OF run Cons.prems(2), of g1] e tb_b notfull
      have "written st2 = written st_b @ number_from (index_counter st_b)
           (map ?shard (group_batches ?c g1 (batches_from ?b [] ls)))"
        by simp
      with w ic grp show ?thesis by simp
    qed
  qed
qed

lemma batches_from_sizes:
  "1 \<le> b \<Longrightarrow> int (length p) < b \<Longrightarrow>
   \<forall>x\<in>set (batches_from b p ls). x \<noteq> [] \<and> int (length x) \<le> b"
proof (induction ls arbitrary: p)
  case Nil
  then show ?case by simp
next
  case (Cons l ls)
  define p' where "p' = (if l \<noteq> [] then p @ [l] else p)"
  have len: "int (length p') \<le> b" using Cons.prems by (simp add: p'_def)
  show ?case
  proof (cases "l = [] \<or> b \<le> int (length p')")
    case True
    then have "batches_from b p (l # ls) = (if p' = [] then [] else [p']) @ batches_from b [] ls"
      by (auto simp: p'_def Let_def)
    moreover have "\<forall>x\<in>set (batches_from b [] ls). x \<noteq> [] \<and> int (length x) \<le> b"
      using Cons.IH [of "[]"] Cons.prems(1) by simp
    ultimately show ?thesis using len by auto
  next
    case False
    then have "batches_from b p (l # ls) = batches_from b p' ls"
      by (auto simp: p'_def Let_def)
    moreover have "int (length p') < b" using False by simp
    ultimately show ?thesis using Cons.IH [of p'] Cons.prems(1) by simp
  qed
qed

lemma group_batches_sizes:
  "int (length (concat cur)) < c \<Longrightarrow> \<forall>x\<in>set bs. int (length x) \<le> b \<Longrightarrow> 1 \<le> b \<Longrightarrow>
   \<forall>g\<in>set (group_batches c cur bs). concat g \<noteq> [] \<and> int (length (concat g)) \<le> c + (b - 1)"
proof (induction bs arbitrary: cur)
  case Nil
  then show ?case by auto
next
  case (Cons x bs)
  have x: "int (length x) \<le> b" using Cons.prems(2) by simp
  have c: "0 < c" using Cons.prems(1) by linarith
  show ?case
  proof (cases "c \<le> int (length (concat (cur @ [x])))")
    case True
    then have eq: "group_batches c cur (x # bs) = (cur @ [x]) # group_batches c [] bs"
      by (simp add: Let_def)
    have "\<forall>g\<in>set (group_batches c [] bs). concat g \<noteq> [] \<and> int (length (concat g)) \<le> c + (b - 1)"
      using Cons.IH [of "[]"] Cons.prems(2,3) c by simp
    moreover have "concat (cur @ [x]) \<noteq> []"
    proof -
      have "0 < length (concat (cur @ [x]))" using True c by linarith
      then show ?thesis by (metis length_greater_0_conv)
    qed
    moreover have "int (length (concat (cur @ [x]))) \<le> c + (b - 1)"
      using Cons.prems(1) x by simp
    ultimately show ?thesis unfolding eq by (simp del: concat_append concat_eq_Nil_conv)
  next
    case False
    then have eq: "group_batches c cur (x # bs) = group_batches c (cur @ [x]) bs"
      by (simp add: Let_def)
    from Cons.IH [of "cur @ [x]"] Cons.prems(2,3) False show ?thesis unfolding eq by simp
  qed
qed

lemma group_batches_one:
  "\<forall>x\<in>set bs. x \<noteq> [] \<Longrightarrow> group_batches 1 [] bs = map (\<lambda>x. [x]) bs"
proof (induction bs)
  case Nil
  show ?case by simp
next
  case (Cons x bs)
  then have "0 < length x" by simp
  then have "(1::int) \<le> int (length x)" by linarith
  with Cons show ?case by (simp add: Let_def)
qed

lemma number_from_snd: "map snd (number_from k xs) = xs"
  by (induction xs arbitrary: k) simp_all

lemma number_from_fst: "map fst (number_from k xs) = map (\<lambda>i. k + int i) [1..<Suc (length xs)]"
proof (induction xs arbitrary: k)
  case Nil
  show ?case by simp
next
  case (Cons x xs)
  have "[1..<Suc (Suc (length xs))] = 1 # map Suc [1..<Suc (length xs)]"
    by (metis One_nat_def map_Suc_upt upt_conv_Cons zero_less_Suc Suc_less_eq)
  then show ?case by (simp add: Cons.IH comp_def add.assoc)
qed

lemma build_run_batches_ok:
  assumes "build_loop env enc lines st = (st1, None)"
    and "finish env enc st1 = (st2, None)"
  shows "\<forall>x\<in>set (batches_from (batch_size env) (text_batch st) lines).
           length (batch_vectors env enc x) = length x"
  using assms
proof (induction lines arbitrary: st)
  case Nil
  show ?case
  proof (cases "text_batch st = []")
    case True
    then show ?thesis by simp
  next
    case False
    with Nil obtain idx t1 t2 where
      "process_batch env enc (text_batch st) (faiss_index st) = Inr (idx, t1, t2)"
      by (auto simp: finish_def split: sum.splits)
    from process_batch_appends [OF this] False show ?thesis by simp
  qed
next
  case (Cons l ls)
  let ?b = "batch_size env"
  define st_a where "st_a = (if l \<noteq> [] then st\<lparr> text_batch := text_batch st @ [l] \<rparr> else st)"
  define p' where "p' = (if l \<noteq> [] then text_batch st @ [l] else text_batch st)"
  have tb: "text_batch st_a = p'" by (simp add: st_a_def p'_def)
  show ?case
  proof (cases "l = [] \<or> ?b \<le> int (length p')")
    case False
    have "build_loop env enc (l # ls) st = build_loop env enc ls st_a"
      using False unfolding p'_def st_a_def by (auto simp: Let_def)
    then have run: "build_loop env enc ls st_a = (st1, None)"
      using Cons.prems(1) by simp
    have spec: "batches_from ?b (text_batch st) (l # ls) = batches_from ?b p' ls"
      using False by (auto simp: p'_def Let_def)
    from Cons.IH [OF run Cons.prems(2)] tb spec show ?thesis by simp
  next
    case True
    have "build_loop env enc (l # ls) st =
        (case flush_batch env enc st_a of
           (st2, Some e) \<Rightarrow> (st2, Some e)
         | (st2, None) \<Rightarrow> build_loop env enc ls st2)"
      using True unfolding p'_def st_a_def by (auto simp: Let_def)
    with Cons.prems(1) obtain st_b where fl: "flush_batch env enc st_a = (st_b, None)"
      and run: "build_loop env enc ls st_b = (st1, None)"
      by (auto split: prod.splits option.splits)
    have spec: "batches_from ?b (text_batch st) (l # ls)
        = (if p' = [] then [] else [p']) @ batches_from ?b [] ls"
      using True by (auto simp: p'_def Let_def)
    have tb_b: "text_batch st_b = []"
      using fl by (auto simp: flush_batch_def Let_def roll_over_def split: sum.splits if_splits)
    have "p' \<noteq> [] \<Longrightarrow> length (batch_vectors env enc p') = length p'"
    proof -
      assume "p' \<noteq> []"
      with fl tb obtain idx t1 t2 where
        "process_batch env enc p' (faiss_index st_a) = Inr (idx, t1, t2)"
        by (auto simp: flush_batch_def split: sum.splits)
      from process_batch_appends [OF this] show ?thesis by simp
    qed
    with Cons.IH [OF run Cons.prems(2)] tb_b show ?thesis unfolding spec by auto
  qed
qed

lemma build_main_ok:
  assumes "build_main env inp = (st, None)"
  shows "1 \<le> batch_size env \<and> 1 \<le> chunks_size env \<and> similarity env \<in> set choices
    \<and> (\<exists>enc st1. encoder env = Some enc
          \<and> build_loop env enc inp (initial_state\<lparr> events := [Sync] \<rparr>) = (st1, None)
          \<and> finish env enc st1 = (st, None))"
  using assms
  by (auto simp: build_main_def parse_args_def choices_def
      split: if_splits option.splits prod.splits sum.splits)

lemma group_batches_subset:
  "\<forall>g\<in>set (group_batches c cur bs). set g \<subseteq> set cur \<union> set bs"
proof (induction bs arbitrary: cur)
  case Nil
  show ?case by simp
next
  case (Cons x bs)
  show ?case
  proof (cases "c \<le> int (length (concat (cur @ [x])))")
    case True
    then have eq: "group_batches c cur (x # bs) = (cur @ [x]) # group_batches c [] bs"
      by (simp add: Let_def)
    show ?thesis unfolding eq using Cons.IH [of "[]"] by auto
  next
    case False
    then have eq: "group_batches c cur (x # bs) = group_batches c (cur @ [x]) bs"
      by (simp add: Let_def)
    show ?thesis unfolding eq using Cons.IH [of "cur @ [x]"] by auto
  qed
qed

lemma length_concat_map_same:
  "\<forall>x\<in>set g. length (f x) = length x \<Longrightarrow> length (concat (map f g)) = length (concat g)"
  by (induction g) simp_all

text \<open>
  Claim C5.  For every build that ends without an exception: the shard files are, in
  order and numbered 1, 2, 3, ..., the vectors of the groups that \<open>group_batches\<close> forms
  from the batches of the input, so every shard holds whole batches and no batch is in two
  shards; every batch has between 1 and \<open>B\<close> documents and gives as many vectors; every
  shard holds at least one and at most \<open>C + (B - 1)\<close> vectors; and for chunk size 1 the
  shards are the batches, one shard for each batch and not one for each vector.
\<close>

theorem batches_never_split:
  assumes "build_main env inp = (st, None)" and "encoder env = Some enc"
  shows "written st = number_from 0
           (map (\<lambda>g. concat (map (batch_vectors env enc) g))
              (group_batches (chunks_size env) [] (batches_from (batch_size env) [] inp)))
    \<and> (\<forall>x\<in>set (batches_from (batch_size env) [] inp).
          0 < length x \<and> int (length x) \<le> batch_size env
          \<and> length (batch_vectors env enc x) = length x)
    \<and> (\<forall>s\<in>set (map snd (written st)).
          0 < length s \<and> int (length s) \<le> chunks_size env + (batch_size env - 1))
    \<and> map fst (written st) = map int [1..<Suc (length (written st))]
    \<and> (chunks_size env = 1 \<longrightarrow>
          map snd (written st) = map (batch_vectors env enc) (batches_from (batch_size env) [] inp))"
proof -
  let ?b = "batch_size env" and ?c = "chunks_size env"
  let ?bv = "batch_vectors env enc"
  let ?bs = "batches_from ?b [] inp"
  let ?gs = "group_batches ?c [] ?bs"
  let ?shard = "\<lambda>g. concat (map ?bv g)"
  from build_main_ok [OF assms(1)] assms(2) obtain st1 where
    b: "1 \<le> ?b" and c: "1 \<le> ?c"
    and run: "build_loop env enc inp (initial_state\<lparr> events := [Sync] \<rparr>) = (st1, None)"
    and fin: "finish env enc st1 = (st, None)"
    by auto
  have w: "written st = number_from 0 (map ?shard ?gs)"
    using build_run_shards [OF run fin, of "[]"] c by (simp add: initial_state_def)
  have ok: "\<forall>x\<in>set ?bs. length (?bv x) = length x"
    using build_run_batches_ok [OF run fin] by (simp add: initial_state_def)
  have sz: "\<forall>x\<in>set ?bs. x \<noteq> [] \<and> int (length x) \<le> ?b"
    using batches_from_sizes [of ?b "[]" inp] b by simp
  have gsz: "\<forall>g\<in>set ?gs. concat g \<noteq> [] \<and> int (length (concat g)) \<le> ?c + (?b - 1)"
    using group_batches_sizes [of "[]" ?c ?bs ?b] sz b c by simp
  have sub: "\<forall>g\<in>set ?gs. set g \<subseteq> set ?bs"
    using group_batches_subset [of ?c "[]" ?bs] by simp
  have len: "\<forall>g\<in>set ?gs. length (?shard g) = length (concat g)"
  proof
    fix g assume "g \<in> set ?gs"
    with sub ok have "\<forall>x\<in>set g. length (?bv x) = length x" by blast
    then show "length (?shard g) = length (concat g)" by (rule length_concat_map_same)
  qed
  have snd_w: "map snd (written st) = map ?shard ?gs"
    by (simp add: w number_from_snd)
  have bound: "\<forall>s\<in>set (map snd (written st)).
          0 < length s \<and> int (length s) \<le> ?c + (?b - 1)"
  proof
    fix s assume "s \<in> set (map snd (written st))"
    then obtain g where g: "g \<in> set ?gs" and s: "s = ?shard g"
      unfolding snd_w by auto
    from g gsz have "concat g \<noteq> []" "int (length (concat g)) \<le> ?c + (?b - 1)" by simp_all
    moreover from g len s have "length s = length (concat g)" by simp
    ultimately show "0 < length s \<and> int (length s) \<le> ?c + (?b - 1)"
      by (metis length_greater_0_conv)
  qed
  have num: "map fst (written st) = map int [1..<Suc (length (written st))]"
  proof -
    have "length (written st) = length (map ?shard ?gs)"
      by (metis snd_w length_map)
    then show ?thesis using number_from_fst [of 0 "map ?shard ?gs"] w by simp
  qed
  have one: "?c = 1 \<longrightarrow> map snd (written st) = map ?bv ?bs"
  proof
    assume "?c = 1"
    moreover have "\<forall>x\<in>set ?bs. x \<noteq> []" using sz by simp
    ultimately have "?gs = map (\<lambda>x. [x]) ?bs" using group_batches_one [of ?bs] by simp
    then show "map snd (written st) = map ?bv ?bs" by (simp add: snd_w comp_def)
  qed
  from w sz ok bound num one show ?thesis by simp
qed

lemmas eval_build = build_script_def build_main_def parse_args_def choices_def initial_state_def
  finish_def flush_batch_def roll_over_def process_batch_def faiss_add_def array_width_def
  np_divide_def demo_build_def demo_enc_def Let_def

lemma demo_run:
  "build_main (demo_build ''dot'' 2 2 1) [''a'', ''b'', ''c'', '''', ''d''] = (demo_final, None)"
  by (simp add: eval_build demo_final_def)

theorem batches_never_split_witness:
  "encoder (demo_build ''dot'' 2 2 1) = Some demo_enc
   \<and> build_main (demo_build ''dot'' 2 2 1) [''a'', ''b'', ''c'', '''', ''d''] = (demo_final, None)
   \<and> written demo_final = [(1, [[3, 4], [6, 8]]), (2, [[0, 1]]), (3, [[0, 1]])]
   \<and> map snd (written demo_final) = map (batch_vectors (demo_build ''dot'' 2 2 1) demo_enc)
        (batches_from (batch_size (demo_build ''dot'' 2 2 1)) [] [''a'', ''b'', ''c'', '''', ''d''])
   \<and> map fst (written demo_final) = map int [1..<Suc (length (written demo_final))]"
proof -
  have h2: "encoder (demo_build ''dot'' 2 2 1) = Some demo_enc" by (simp add: demo_build_def)
  have c: "chunks_size (demo_build ''dot'' 2 2 1) = 1" by (simp add: demo_build_def)
  have w: "written demo_final = [(1, [[3, 4], [6, 8]]), (2, [[0, 1]]), (3, [[0, 1]])]"
    by (simp add: demo_final_def)
  note t = batches_never_split [OF demo_run h2]
  from t c have "map snd (written demo_final) = map (batch_vectors (demo_build ''dot'' 2 2 1) demo_enc)
        (batches_from (batch_size (demo_build ''dot'' 2 2 1)) [] [''a'', ''b'', ''c'', '''', ''d''])"
    by blast
  moreover from t have "map fst (written demo_final) = map int [1..<Suc (length (written demo_final))]"
    by blast
  ultimately show ?thesis using h2 demo_run w by blast
qed


text \<open>
  Claim C8.  When the similarity is not one of the four choices, or the batch size or the
  chunk size is below 1, the script ends with a fatal error (the exit of the argument
  parser for the similarity, the exception of \<open>main\<close> for the sizes), for every input and
  every encoder: no sync line has been written, and no shard file.
\<close>

theorem bad_arguments_fail_before_ready:
  assumes "similarity env \<notin> set choices \<or> batch_size env < 1 \<or> chunks_size env < 1"
  shows "\<exists>st e. build_script env inp = (st, Fatal e)
      \<and> (e = SystemExit \<or> e = ConfigError)
      \<and> Sync \<notin> set (events st) \<and> written st = []"
proof (cases "similarity env \<in> set choices")
  case False
  then show ?thesis
    by (simp add: build_script_def build_main_def parse_args_def initial_state_def)
next
  case True
  with assms have "batch_size env < 1 \<or> chunks_size env < 1" by simp
  with True show ?thesis
    by (auto simp: build_script_def build_main_def parse_args_def initial_state_def choices_def)
qed

theorem bad_arguments_fail_before_ready_witness:
  "batch_size (demo_build ''dot'' 2 0 3) < 1
   \<and> (\<exists>st e. build_script (demo_build ''dot'' 2 0 3) [''a'', ''b''] = (st, Fatal e)
      \<and> (e = SystemExit \<or> e = ConfigError)
      \<and> Sync \<notin> set (events st) \<and> written st = [])"
proof -
  have b: "batch_size (demo_build ''dot'' 2 0 3) < 1" by (simp add: demo_build_def)
  then have h: "similarity (demo_build ''dot'' 2 0 3) \<notin> set choices
      \<or> batch_size (demo_build ''dot'' 2 0 3) < 1 \<or> chunks_size (demo_build ''dot'' 2 0 3) < 1"
    by simp
  from bad_arguments_fail_before_ready [OF h, of "[''a'', ''b'']"] b show ?thesis by blast
qed


lemma build_loop_empty_lines:
  assumes "1 \<le> chunks_size env" and "text_batch st = []" and "doc_index_counter st = 0"
  shows "build_loop env enc (replicate k []) st
     = (st\<lparr> events := events st @
           concat (replicate k [Sync, Stdout (Seconds Zero), Stdout (Seconds Zero)]) \<rparr>, None)"
  using assms
proof (induction k arbitrary: st)
  case 0
  show ?case by simp
next
  case (Suc k)
  let ?line = "[Sync, Stdout (Seconds Zero), Stdout (Seconds Zero)]"
  let ?st1 = "st\<lparr> events := events st @ ?line \<rparr>"
  have fl: "flush_batch env enc st = (?st1, None)"
    using Suc.prems by (simp add: flush_batch_def Let_def)
  have "build_loop env enc (replicate (Suc k) []) st = build_loop env enc (replicate k []) ?st1"
    using fl by (simp add: Let_def)
  also have "\<dots> = (?st1\<lparr> events := events ?st1 @ concat (replicate k ?line) \<rparr>, None)"
    using Suc.IH [of ?st1] Suc.prems by simp
  finally show ?case by simp
qed

text \<open>
  Claim C10.  With valid arguments and an input that ends before any document line (it has
  \<open>k\<close> empty lines, \<open>k\<close> possibly 0), the build writes no shard file and fills no shard
  number; after the sync line of the init phase and a sync line with two times \<open>0.0\<close> for
  each empty line, it writes the final sync line and the final two times, both \<open>0.0\<close>, and
  ends without an error.
\<close>

theorem empty_input_writes_no_shard:
  assumes "similarity env \<in> set choices" and "1 \<le> batch_size env" and "1 \<le> chunks_size env"
    and "encoder env = Some enc"
  shows "\<exists>st. build_script env (replicate k []) = (st, Clean)
      \<and> written st = [] \<and> index_counter st = 0
      \<and> events st = Sync # concat (replicate k [Sync, Stdout (Seconds Zero), Stdout (Seconds Zero)])
                       @ [Sync, Stdout (Seconds Zero), Stdout (Seconds Zero)]"
proof -
  let ?line = "[Sync, Stdout (Seconds Zero), Stdout (Seconds Zero)]"
  let ?st0 = "initial_state\<lparr> events := [Sync] \<rparr>"
  let ?st1 = "?st0\<lparr> events := events ?st0 @ concat (replicate k ?line) \<rparr>"
  have loop: "build_loop env enc (replicate k []) ?st0 = (?st1, None)"
    using build_loop_empty_lines [of env ?st0 enc k] assms(3) by (simp add: initial_state_def)
  have fin: "finish env enc ?st1 = (?st1\<lparr> events := events ?st1 @ ?line \<rparr>, None)"
    by (simp add: finish_def initial_state_def Let_def)
  have "build_main env (replicate k []) = (?st1\<lparr> events := events ?st1 @ ?line \<rparr>, None)"
    using assms loop fin by (simp add: build_main_def parse_args_def choices_def)
  then show ?thesis by (simp add: build_script_def initial_state_def)
qed

theorem empty_input_writes_no_shard_witness:
  "similarity (demo_build ''cos'' 2 2 3) \<in> set choices \<and> 1 \<le> batch_size (demo_build ''cos'' 2 2 3)
   \<and> 1 \<le> chunks_size (demo_build ''cos'' 2 2 3) \<and> encoder (demo_build ''cos'' 2 2 3) = Some demo_enc
   \<and> (\<exists>st. build_script (demo_build ''cos'' 2 2 3) (replicate 0 []) = (st, Clean)
      \<and> written st = []
      \<and> events st = [Sync, Sync, Stdout (Seconds Zero), Stdout (Seconds Zero)])"
proof -
  have h: "similarity (demo_build ''cos'' 2 2 3) \<in> set choices" "1 \<le> batch_size (demo_build ''cos'' 2 2 3)"
    "1 \<le> chunks_size (demo_build ''cos'' 2 2 3)" "encoder (demo_build ''cos'' 2 2 3) = Some demo_enc"
    by (simp_all add: demo_build_def choices_def)
  from empty_input_writes_no_shard [OF h, of 0] h show ?thesis by auto
qed

lemma sqrt_25: "sqrt 25 = 5"
  using real_sqrt_abs [of 5] by simp

lemma sqrt_100: "sqrt 100 = 10"
  using real_sqrt_abs [of 10] by simp

text \<open>
  Claim C4 (the code differs).  With the cosine similarity, \<open>vectors / vectors_norm\<close>
  matches the norms with the columns of the batch, not with its rows.  A batch of three
  documents of width 2 raises \<open>ValueError\<close> and the build ends without a shard; a batch
  of two documents of width 2 is divided column by column, so the vectors added are not
  the normalized ones.
\<close>

theorem cosine_batch_not_normalized:
  "process_batch (demo_build ''cos'' 2 3 3) demo_enc [''a'', ''b'', ''b''] [] = Inl ValueError
   \<and> snd (build_script (demo_build ''cos'' 2 3 3) [''a'', ''b'', ''b'']) = Fatal ValueError
   \<and> written (fst (build_script (demo_build ''cos'' 2 3 3) [''a'', ''b'', ''b''])) = []
   \<and> process_batch (demo_build ''cos'' 2 2 3) demo_enc [''a'', ''b''] []
        = Inr ([[3/5, 2/5], [6/5, 4/5]], Measured, Measured)
   \<and> map l2_normalize (map demo_enc [''a'', ''b'']) = [[3/5, 4/5], [3/5, 4/5]]"
  by (simp add: eval_build l2_normalize_def np_norm_def np_sum_square_def sqrt_25 sqrt_100)

lemma cosine_single_document_normalized:
  assumes "similarity env = ''cos''" and "length (enc t) = vector_size env"
  shows "process_batch env enc [t] idx = Inr (idx @ [l2_normalize (enc t)], Measured, Measured)"
proof -
  have "np_divide [enc t] [np_norm (enc t)] = Inr [l2_normalize (enc t)]"
  proof (cases "length (enc t) = 1")
    case True
    then obtain a where "enc t = [a]" by (cases "enc t") auto
    then show ?thesis by (simp add: np_divide_def array_width_def l2_normalize_def)
  next
    case False
    then show ?thesis by (simp add: np_divide_def array_width_def l2_normalize_def)
  qed
  then show ?thesis
    using assms by (simp add: process_batch_def Let_def faiss_add_def array_width_def l2_normalize_def)
qed

lemma process_batch_plain:
  assumes "similarity env \<noteq> ''cos''" and "\<forall>t. length (enc t) = vector_size env" and "batch \<noteq> []"
  shows "process_batch env enc batch idx = Inr (idx @ map enc batch, Measured, Measured)"
proof -
  obtain t ts where "batch = t # ts" using assms(3) by (cases batch) auto
  then have "array_width (map enc batch) = vector_size env"
    using assms(2) by (simp add: array_width_def)
  then show ?thesis using assms(1,3) by (simp add: process_batch_def Let_def faiss_add_def)
qed

lemma flush_batch_plain:
  assumes "similarity env \<noteq> ''cos''" and "\<forall>t. length (enc t) = vector_size env"
  shows "\<exists>st'. flush_batch env enc st = (st', None)"
proof (cases "text_batch st = []")
  case True
  then show ?thesis by (simp add: flush_batch_def Let_def)
next
  case False
  from process_batch_plain [OF assms False] False show ?thesis
    by (simp add: flush_batch_def Let_def)
qed

lemma build_loop_plain:
  assumes "similarity env \<noteq> ''cos''" and "\<forall>t. length (enc t) = vector_size env"
  shows "\<exists>st'. build_loop env enc inp st = (st', None)"
proof (induction inp arbitrary: st)
  case Nil
  show ?case by simp
next
  case (Cons l ls)
  define st_a where "st_a = (if l \<noteq> [] then st\<lparr> text_batch := text_batch st @ [l] \<rparr> else st)"
  show ?case
  proof (cases "l = [] \<or> batch_size env \<le> int (length (text_batch st_a))")
    case False
    then have "build_loop env enc (l # ls) st = build_loop env enc ls st_a"
      unfolding st_a_def by (auto simp: Let_def)
    with Cons.IH [of st_a] show ?thesis by simp
  next
    case True
    from flush_batch_plain [OF assms, of st_a] obtain st_b where
      fl: "flush_batch env enc st_a = (st_b, None)" by blast
    from True have "build_loop env enc (l # ls) st =
        (case flush_batch env enc st_a of
           (st2, Some e) \<Rightarrow> (st2, Some e)
         | (st2, None) \<Rightarrow> build_loop env enc ls st2)"
      unfolding st_a_def by (auto simp: Let_def)
    with fl Cons.IH [of st_b] show ?thesis by simp
  qed
qed

lemma build_main_completes:
  assumes "similarity env \<in> {''dot'', ''l2'', ''l2sq''}"
    and "1 \<le> batch_size env" and "1 \<le> chunks_size env"
    and "encoder env = Some enc" and "\<forall>t. length (enc t) = vector_size env"
  shows "\<exists>st. build_main env inp = (st, None)"
proof -
  have nc: "similarity env \<noteq> ''cos''" using assms(1) by auto
  from build_loop_plain [OF nc assms(5)] obtain st1 where
    loop: "build_loop env enc inp (initial_state\<lparr> events := [Sync] \<rparr>) = (st1, None)" by blast
  have "\<exists>st. finish env enc st1 = (st, None)"
  proof (cases "text_batch st1 = []")
    case True
    then show ?thesis by (simp add: finish_def Let_def)
  next
    case False
    from process_batch_plain [OF nc assms(5) False] False show ?thesis
      by (simp add: finish_def Let_def)
  qed
  then obtain st where "finish env enc st1 = (st, None)" by blast
  with loop assms show ?thesis
    by (auto simp: build_main_def parse_args_def choices_def)
qed

end
